theory Spec2Isabelle
  imports Main "HOL-Library.Multiset"
begin

section \<open>Path utilities (lib/utils/path.ts)\<close>


definition upper_lower_table :: "(char \<times> char) list" where
  "upper_lower_table = zip ''ABCDEFGHIJKLMNOPQRSTUVWXYZ'' ''abcdefghijklmnopqrstuvwxyz''"

definition toLowerCase_char :: "char \<Rightarrow> char" where
  "toLowerCase_char c = (case map_of upper_lower_table c of Some l \<Rightarrow> l | None \<Rightarrow> c)"

definition toLowerCase :: "string \<Rightarrow> string" where
  "toLowerCase s = map toLowerCase_char s"

text \<open>\<open>path.replace(/\\/g, '/')\<close>: every backslash (code 0x5C) becomes a forward slash.\<close>

definition replace_backslashes :: "string \<Rightarrow> string" where
  "replace_backslashes s = map (\<lambda>c. if c = CHR 0x5C then CHR ''/'' else c) s"

definition startsWith :: "string \<Rightarrow> string \<Rightarrow> bool" where
  "startsWith s pre = (take (length pre) s = pre)"

definition endsWith :: "string \<Rightarrow> string \<Rightarrow> bool" where
  "endsWith s suf = (length suf \<le> length s \<and> drop (length s - length suf) s = suf)"

text \<open>\<open>normalized.slice(0, -1)\<close> drops the last character.\<close>

definition normalizePath :: "string \<Rightarrow> string" where
  "normalizePath path =
     (let normalized = replace_backslashes path;
          normalized = (if length normalized > 1 \<and> endsWith normalized ''/''
                        then butlast normalized else normalized)
      in toLowerCase normalized)"

definition isSubpath :: "string \<Rightarrow> string \<Rightarrow> bool" where
  "isSubpath path parentPath =
     (let normalizedPath = normalizePath path;
          normalizedParent = normalizePath parentPath
      in if normalizedPath = normalizedParent then False
         else startsWith normalizedPath (normalizedParent @ ''/''))"

definition isParentPath :: "string \<Rightarrow> string \<Rightarrow> bool" where
  "isParentPath path childPath = isSubpath childPath path"

definition findParentPaths :: "string \<Rightarrow> string list \<Rightarrow> string list" where
  "findParentPaths newPath existingPaths = filter (\<lambda>existing. isSubpath newPath existing) existingPaths"

definition findChildPaths :: "string \<Rightarrow> string list \<Rightarrow> string list" where
  "findChildPaths newPath existingPaths = filter (\<lambda>existing. isSubpath existing newPath) existingPaths"

record PathValidationResult =
  isValid :: bool
  isDuplicate :: bool
  isSubpathOf :: "string list"
  hasSubpaths :: "string list"
  warnings :: "string list"

text \<open>\<open>Array.prototype.join\<close> with a separator.\<close>

fun join :: "string \<Rightarrow> string list \<Rightarrow> string" where
  "join sep [] = []"
| "join sep [x] = x"
| "join sep (x # y # ys) = x @ sep @ join sep (y # ys)"

definition validatePath :: "string \<Rightarrow> string list \<Rightarrow> PathValidationResult" where
  "validatePath path existingPaths =
     (let normalizedPath = normalizePath path;
          dup = list_ex (\<lambda>existing. normalizePath existing = normalizedPath) existingPaths;
          w1 = (if dup then [''This path is already in the list''] else []);
          sub = findParentPaths path existingPaths;
          w2 = (if length sub > 0
                then w1 @ [''This path is already covered by: '' @ join '', '' sub] else w1);
          has = findChildPaths path existingPaths;
          w3 = (if length has > 0
                then w2 @ [''This path would make redundant: '' @ join '', '' has] else w2)
      in \<lparr> isValid = (\<not> dup \<and> length sub = 0), isDuplicate = dup,
           isSubpathOf = sub, hasSubpaths = has, warnings = w3 \<rparr>)"


text \<open>
  \<open>handlePathAdded\<close> of PathSelector.svelte, over the scan roots of the application
  store and the component's list of rejected paths.  \<open>appState.validatePath(p)\<close> validates
  against the current scan roots, \<open>appState.validatePath(p, xs)\<close> against \<open>xs\<close>.  The second
  parameter of the handler is not read by its body.
\<close>

record InvalidPath =
  ip_path :: string
  ip_validation :: PathValidationResult

record selector_state =
  scanPaths :: "string list"
  invalidPaths :: "InvalidPath list"

definition note_invalid :: "string \<Rightarrow> PathValidationResult \<Rightarrow> InvalidPath list \<Rightarrow> InvalidPath list" where
  "note_invalid p v ips =
     (if \<not> list_ex (\<lambda>ip. ip_path ip = p) ips
      then ips @ [\<lparr> ip_path = p, ip_validation = v \<rparr>] else ips)"

definition handlePathAdded :: "string \<Rightarrow> string list \<Rightarrow> selector_state \<Rightarrow> selector_state" where
  "handlePathAdded path hasSubpathsArg st =
     (let validation = validatePath path (scanPaths st) in
      if isValid validation \<or>
         (length (hasSubpaths validation) > 0 \<and> \<not> isDuplicate validation
            \<and> length (isSubpathOf validation) = 0)
      then
        let newPaths = filter (\<lambda>p. p \<notin> set (hasSubpaths validation)) (scanPaths st) @ [path];
            ips = foldl (\<lambda>ips subpath. note_invalid subpath (validatePath subpath newPaths) ips)
                    (invalidPaths st) (hasSubpaths validation)
        in st\<lparr> scanPaths := newPaths, invalidPaths := ips \<rparr>
      else st\<lparr> invalidPaths := note_invalid path validation (invalidPaths st) \<rparr>)"


definition strict_subpath_spec :: "string \<Rightarrow> string \<Rightarrow> bool" where
  "strict_subpath_spec p parent =
     (let np = normalizePath p; nparent = normalizePath parent
      in np \<noteq> nparent \<and> startsWith np nparent \<and>
         (endsWith nparent ''/'' \<or> startsWith (drop (length nparent) np) ''/''))"

definition roots_invariant_spec :: "string list \<Rightarrow> bool" where
  "roots_invariant_spec roots =
     (distinct (map normalizePath roots) \<and>
      list_all (\<lambda>a. list_all (\<lambda>b. \<not> strict_subpath_spec a b) roots) roots)"

text \<open>The same property with the sub-path test the code itself uses, \<open>isSubpath\<close>.\<close>

definition roots_invariant_code :: "string list \<Rightarrow> bool" where
  "roots_invariant_code roots =
     (distinct (map normalizePath roots) \<and>
      list_all (\<lambda>a. list_all (\<lambda>b. \<not> isSubpath a b) roots) roots)"

text \<open>A sequence of add operations, each with the handler's unused second argument empty.\<close>

definition add_all :: "string list \<Rightarrow> selector_state \<Rightarrow> selector_state" where
  "add_all ps st = foldl (\<lambda>st p. handlePathAdded p [] st) st ps"


section \<open>The compress page (routes/compress/+page.svelte)\<close>

subsection \<open>Step management\<close>

text \<open>
  The part of the page state that the scan step reads and writes.  The list of rejected
  files and the plugin catalogue are displayed only and are left out; the results and
  counters of the worker pool, which \<open>startNewScan\<close> also resets, are modelled with the
  pool below.
\<close>

datatype Step = Scan | Confirm | Process

record CompressibleFile =
  cf_path :: string
  original_size :: int
  estimated_compressed_size :: int
  estimated_savings :: int
  cf_plugin_name :: string

record page_state =
  currentStep :: Step
  scanning :: bool
  compressibleFiles :: "CompressibleFile list"
  selectedFiles :: "string set"
  appState_error :: "string option"

definition initial_page_state :: page_state where
  "initial_page_state =
     \<lparr> currentStep = Scan, scanning = False, compressibleFiles = [], selectedFiles = {},
       appState_error = None \<rparr>"

text \<open>
  A rejected promise carries a value that is an \<open>Error\<close> (with a message) or is something
  else; the \<open>catch\<close> blocks of the page tell the two apart with \<open>instanceof\<close>.
\<close>

datatype rejection = ErrorInstance string | OtherValue

datatype scan_outcome = ScanResolved "CompressibleFile list" | ScanRejected rejection

text \<open>
  \<open>handleScan\<close> up to its \<open>await\<close>, given the scan paths of the application store and the
  active plugins: the two guards, then the reset of the previous scan.
\<close>

definition handleScan_start :: "string list \<Rightarrow> string set \<Rightarrow> page_state \<Rightarrow> page_state" where
  "handleScan_start scanPathsNow activePlugins st =
     (if length scanPathsNow = 0
      then st\<lparr> appState_error := Some ''Please add paths to scan'' \<rparr>
      else if activePlugins = {}
      then st\<lparr> appState_error := Some ''Please activate at least one plugin'' \<rparr>
      else st\<lparr> scanning := True, appState_error := None, compressibleFiles := [],
               selectedFiles := {} \<rparr>)"

text \<open>\<open>handleScan\<close> after its \<open>await\<close>: every compressible file found is selected.\<close>

definition handleScan_settle :: "scan_outcome \<Rightarrow> page_state \<Rightarrow> page_state" where
  "handleScan_settle out st =
     (case out of
        ScanResolved compressible \<Rightarrow>
          st\<lparr> compressibleFiles := compressible,
              selectedFiles := set (map cf_path compressible), scanning := False \<rparr>
      | ScanRejected err \<Rightarrow>
          st\<lparr> appState_error :=
                Some (case err of ErrorInstance m \<Rightarrow> m | OtherValue \<Rightarrow> ''Failed to scan files''),
              scanning := False \<rparr>)"

definition toggleFileSelection :: "string \<Rightarrow> page_state \<Rightarrow> page_state" where
  "toggleFileSelection p st =
     (if p \<in> selectedFiles st
      then st\<lparr> selectedFiles := selectedFiles st - {p} \<rparr>
      else st\<lparr> selectedFiles := insert p (selectedFiles st) \<rparr>)"

definition toggleAllFiles :: "page_state \<Rightarrow> page_state" where
  "toggleAllFiles st =
     (if card (selectedFiles st) = length (compressibleFiles st)
      then st\<lparr> selectedFiles := {} \<rparr>
      else st\<lparr> selectedFiles := set (map cf_path (compressibleFiles st)) \<rparr>)"

definition startNewScan :: "page_state \<Rightarrow> page_state" where
  "startNewScan st =
     st\<lparr> currentStep := Scan, compressibleFiles := [], selectedFiles := {} \<rparr>"

definition goToConfirm :: "page_state \<Rightarrow> page_state" where
  "goToConfirm st =
     (if length (compressibleFiles st) = 0
      then st\<lparr> appState_error := Some ''Please scan for files first'' \<rparr>
      else st\<lparr> currentStep := Confirm \<rparr>)"

text \<open>
  \<open>goToConfirm\<close> has one caller, the "Next" button of ScanStep.svelte.  The page shows
  ScanStep in the scan step only; ScanStep shows the button only in the branch where
  \<open>compressibleFiles.length\<close> is not zero, and the button is disabled while
  \<open>selectedFiles.size === 0\<close>.  A click runs the handler only on a button that is shown and
  enabled.
\<close>

definition next_button_click :: "page_state \<Rightarrow> page_state" where
  "next_button_click st =
     (if currentStep st = Scan \<and> length (compressibleFiles st) \<noteq> 0 \<and> selectedFiles st \<noteq> {}
      then goToConfirm st else st)"

text \<open>
  At least one of the scanned files is selected; and the property that every selected path
  is the path of a scanned file, which the handlers above keep.
\<close>

definition some_file_selected :: "page_state \<Rightarrow> bool" where
  "some_file_selected st = list_ex (\<lambda>f. cf_path f \<in> selectedFiles st) (compressibleFiles st)"

definition selection_inv :: "page_state \<Rightarrow> bool" where
  "selection_inv st = (selectedFiles st \<subseteq> set (map cf_path (compressibleFiles st)))"

text \<open>A page after a scan that found one file, with that file then deselected.\<close>

definition sample_file :: CompressibleFile where
  "sample_file = \<lparr> cf_path = ''/p/a.png'', original_size = 10, estimated_compressed_size = 7,
                    estimated_savings = 3, cf_plugin_name = ''WebP Converter'' \<rparr>"

definition scanned_page :: page_state where
  "scanned_page =
     handleScan_settle (ScanResolved [sample_file])
       (handleScan_start [''/p''] {''WebP Converter''} initial_page_state)"

definition deselected_page :: page_state where
  "deselected_page = toggleAllFiles scanned_page"

subsection \<open>The worker pool of \<open>handleCompress\<close>\<close>

record InPlaceCompressionResult =
  success :: bool
  path :: string
  backup_path :: "string option"
  res_original_size :: "int option"
  compressed_size :: "int option"
  savings :: "int option"
  plugin_name :: "string option"
  error :: "string option"

text \<open>
  How one call \<open>compressFilesInPlace([filePath], plugins)\<close> settles: the promise resolves to
  an array of results, or rejects.
\<close>

datatype outcome = Resolved "InPlaceCompressionResult list" | Rejected rejection

type_synonym compress_api = "string list \<Rightarrow> string list \<Rightarrow> outcome"

text \<open>The mock of lib/api/index.ts (web mode): one successful result per requested path.\<close>

definition mock_compressFilesInPlace :: compress_api where
  "mock_compressFilesInPlace filePaths pluginOrders =
     Resolved (map (\<lambda>p. \<lparr> success = True, path = p, backup_path = Some (p @ ''.backup''),
                           res_original_size = Some 1024000, compressed_size = Some 716800,
                           savings = Some 307200, plugin_name = Some ''WebP Converter'',
                           error = None \<rparr>) filePaths)"

text \<open>
  A worker task is an \<open>async\<close> function: it runs without interruption from one \<open>await\<close> to the
  next.  Between two such segments it is suspended at the \<open>await\<close> of the compress call
  (holding its \<open>currentIndex\<close> and \<open>filePath\<close>), suspended at the \<open>await\<close> of the 10 ms timer
  that ends each iteration, or it has returned.
\<close>

datatype worker_state = AwaitingCompress nat string | AwaitingTimer | Returned

record BatchPlan =
  filesToCompress :: "string list"
  plugins :: "string list"
  poolSize :: nat

text \<open>
  The variables the worker tasks share.  \<open>claimLog\<close> is a history variable that is not in the
  source: every evaluation of \<open>fileIndex++\<close> appends the worker that ran it and the index it
  obtained.
\<close>

record pool_state =
  fileIndex :: nat
  currentlyProcessing :: "string list"
  compressionResults :: "InPlaceCompressionResult list"
  processedCount :: nat
  pool :: "worker_state list"
  claimLog :: "(nat \<times> nat) list"

text \<open>
  From the loop test to the compress call: worker \<open>w\<close> either claims the next index, puts its
  path in flight and suspends on the call, or finds nothing left and returns.
\<close>

definition worker_loop :: "BatchPlan \<Rightarrow> nat \<Rightarrow> pool_state \<Rightarrow> worker_state \<times> pool_state" where
  "worker_loop plan w s =
     (if fileIndex s < length (filesToCompress plan)
      then
        let currentIndex = fileIndex s;
            filePath = filesToCompress plan ! currentIndex
        in (AwaitingCompress currentIndex filePath,
            s\<lparr> fileIndex := fileIndex s + 1,
               currentlyProcessing := currentlyProcessing s @ [filePath],
               claimLog := claimLog s @ [(w, currentIndex)] \<rparr>)
      else (Returned, s))"

text \<open>\<open>pool.push(worker())\<close>: the call runs the new worker up to its first \<open>await\<close>.\<close>

definition spawn_worker :: "BatchPlan \<Rightarrow> pool_state \<Rightarrow> pool_state" where
  "spawn_worker plan s =
     (case worker_loop plan (length (pool s)) s of
        (ws, s') \<Rightarrow> s'\<lparr> pool := pool s' @ [ws] \<rparr>)"

definition initial_pool_state :: pool_state where
  "initial_pool_state =
     \<lparr> fileIndex = 0, currentlyProcessing = [], compressionResults = [],
       processedCount = 0, pool = [], claimLog = [] \<rparr>"

text \<open>The state when \<open>handleCompress\<close> reaches \<open>await Promise.all(pool)\<close>.\<close>

definition spawn_all :: "BatchPlan \<Rightarrow> pool_state" where
  "spawn_all plan = ((spawn_worker plan) ^^ (poolSize plan)) initial_pool_state"

definition error_message :: "rejection \<Rightarrow> string" where
  "error_message err = (case err of ErrorInstance m \<Rightarrow> m | OtherValue \<Rightarrow> ''Unknown error'')"

definition failure_result :: "string \<Rightarrow> rejection \<Rightarrow> InPlaceCompressionResult" where
  "failure_result filePath err =
     \<lparr> success = False, path = filePath, backup_path = None, res_original_size = None,
       compressed_size = None, savings = None, plugin_name = None,
       error = Some (error_message err) \<rparr>"

text \<open>
  From the return of the compress call to the timer: the \<open>try\<close>/\<open>catch\<close> appends the results
  or one failure record, then the path leaves the in-flight list and the count goes up.
\<close>

definition after_compress :: "outcome \<Rightarrow> string \<Rightarrow> pool_state \<Rightarrow> pool_state" where
  "after_compress out filePath s =
     (let s1 = (case out of
                  Resolved results \<Rightarrow>
                    s\<lparr> compressionResults := compressionResults s @ results \<rparr>
                | Rejected err \<Rightarrow>
                    s\<lparr> compressionResults := compressionResults s @ [failure_result filePath err] \<rparr>)
      in s1\<lparr> currentlyProcessing := filter (\<lambda>p. p \<noteq> filePath) (currentlyProcessing s1),
             processedCount := processedCount s1 + 1 \<rparr>)"

text \<open>
  One scheduling step: the event loop resumes the suspended worker \<open>w\<close>, which runs to its
  next \<open>await\<close> or to its return.  A worker that has returned, or an index outside the pool,
  cannot be resumed.
\<close>

definition resume :: "compress_api \<Rightarrow> BatchPlan \<Rightarrow> nat \<Rightarrow> pool_state \<Rightarrow> pool_state option" where
  "resume api plan w s =
     (if w < length (pool s) then
        (case pool s ! w of
           AwaitingCompress currentIndex filePath \<Rightarrow>
             Some ((after_compress (api [filePath] (plugins plan)) filePath s)
                     \<lparr> pool := (pool s)[w := AwaitingTimer] \<rparr>)
         | AwaitingTimer \<Rightarrow>
             (case worker_loop plan w s of
                (ws, s') \<Rightarrow> Some (s'\<lparr> pool := (pool s')[w := ws] \<rparr>))
         | Returned \<Rightarrow> None)
      else None)"

text \<open>An interleaving is the list of workers in the order the event loop resumes them.\<close>

fun run_schedule :: "compress_api \<Rightarrow> BatchPlan \<Rightarrow> nat list \<Rightarrow> pool_state \<Rightarrow> pool_state option" where
  "run_schedule api plan [] s = Some s"
| "run_schedule api plan (w # ws) s =
     (case resume api plan w s of None \<Rightarrow> None | Some s' \<Rightarrow> run_schedule api plan ws s')"

text \<open>\<open>Promise.all(pool)\<close> resolves when every worker has returned.\<close>

definition run_complete :: "pool_state \<Rightarrow> bool" where
  "run_complete s = list_all (\<lambda>ws. ws = Returned) (pool s)"

text \<open>
  A call behaves as the mock does when it resolves to exactly one result that carries the
  requested path, or rejects.
\<close>

definition one_result_per_call :: "compress_api \<Rightarrow> BatchPlan \<Rightarrow> bool" where
  "one_result_per_call api plan =
     list_all (\<lambda>p. case api [p] (plugins plan) of
                      Resolved rs \<Rightarrow> length rs = 1 \<and> path (hd rs) = p
                    | Rejected err \<Rightarrow> True) (filesToCompress plan)"

subsection \<open>Invariants and progress measure of the worker pool\<close>

text \<open>
  What holds of the cursor in every state of a run: it never passes the plan's length, the
  pool keeps its size, a worker only returns once the cursor has reached the end, and the
  claim history lists the indices \<open>0, 1, 2, \<dots>\<close> in order.
\<close>

definition cursor_inv :: "BatchPlan \<Rightarrow> pool_state \<Rightarrow> bool" where
  "cursor_inv plan s \<longleftrightarrow>
     fileIndex s \<le> length (filesToCompress plan) \<and>
     length (pool s) = poolSize plan \<and>
     (Returned \<in> set (pool s) \<longrightarrow> fileIndex s = length (filesToCompress plan)) \<and>
     map snd (claimLog s) = [0..<fileIndex s] \<and>
     (\<forall>c \<in> set (claimLog s). fst c < poolSize plan)"

text \<open>
  What links the in-flight list to the suspended workers: the list has no duplicates, it
  holds exactly the paths of the workers that wait on a compress call, no two workers wait
  on the same path, and claimed items are either in flight or counted as processed.
\<close>

definition flight_inv :: "BatchPlan \<Rightarrow> pool_state \<Rightarrow> bool" where
  "flight_inv plan s \<longleftrightarrow>
     distinct (currentlyProcessing s) \<and>
     (\<forall>w<length (pool s). \<forall>i p. pool s ! w = AwaitingCompress i p \<longrightarrow>
        i < fileIndex s \<and> p = filesToCompress plan ! i \<and> p \<in> set (currentlyProcessing s)) \<and>
     (\<forall>p \<in> set (currentlyProcessing s). \<exists>w<length (pool s). \<exists>i. pool s ! w = AwaitingCompress i p) \<and>
     (\<forall>w<length (pool s). \<forall>w'<length (pool s). \<forall>i i' p.
        pool s ! w = AwaitingCompress i p \<and> pool s ! w' = AwaitingCompress i' p \<longrightarrow> w = w') \<and>
     processedCount s + length (currentlyProcessing s) = fileIndex s"

text \<open>
  The same link without any assumption on the paths, by counting: the paths in flight
  are among the paths the suspended workers wait on, taken with multiplicity, and every
  claimed item is waited on or counted as processed.
\<close>

fun in_flight_of :: "worker_state \<Rightarrow> string multiset" where
  "in_flight_of (AwaitingCompress i p) = {#p#}"
| "in_flight_of AwaitingTimer = {#}"
| "in_flight_of Returned = {#}"

definition awaiting_paths :: "worker_state list \<Rightarrow> string multiset" where
  "awaiting_paths ws = sum_list (map in_flight_of ws)"

definition count_inv :: "BatchPlan \<Rightarrow> pool_state \<Rightarrow> bool" where
  "count_inv plan s \<longleftrightarrow>
     (\<forall>w<length (pool s). \<forall>i p. pool s ! w = AwaitingCompress i p \<longrightarrow>
        i < fileIndex s \<and> p = filesToCompress plan ! i) \<and>
     mset (currentlyProcessing s) \<subseteq># awaiting_paths (pool s) \<and>
     size (awaiting_paths (pool s)) + processedCount s = fileIndex s"

text \<open>With one result per settled call, the results keep step with the count.\<close>

definition tally_inv :: "pool_state \<Rightarrow> bool" where
  "tally_inv s \<longleftrightarrow> length (compressionResults s) = processedCount s"

text \<open>The results a call for path \<open>p\<close> adds to \<open>compressionResults\<close> once it settles.\<close>

definition settled_results :: "compress_api \<Rightarrow> BatchPlan \<Rightarrow> string \<Rightarrow> InPlaceCompressionResult list" where
  "settled_results api plan p =
     (case api [p] (plugins plan) of Resolved rs \<Rightarrow> rs | Rejected err \<Rightarrow> [failure_result p err])"

definition results_inv :: "BatchPlan \<Rightarrow> pool_state \<Rightarrow> bool" where
  "results_inv plan s \<longleftrightarrow>
     mset (map path (compressionResults s)) + mset (currentlyProcessing s)
       = mset (take (fileIndex s) (filesToCompress plan))"

definition recorded_inv :: "compress_api \<Rightarrow> BatchPlan \<Rightarrow> pool_state \<Rightarrow> bool" where
  "recorded_inv api plan s \<longleftrightarrow>
     (\<forall>i<fileIndex s. filesToCompress plan ! i \<notin> set (currentlyProcessing s) \<longrightarrow>
        set (settled_results api plan (filesToCompress plan ! i)) \<subseteq> set (compressionResults s))"

text \<open>
  The number of resumptions a run still needs: two for every unclaimed item, two for a
  worker waiting on a call, one for a worker waiting on its timer.
\<close>

fun worker_weight :: "worker_state \<Rightarrow> nat" where
  "worker_weight (AwaitingCompress i p) = 2"
| "worker_weight AwaitingTimer = 1"
| "worker_weight Returned = 0"

definition remaining_work :: "BatchPlan \<Rightarrow> pool_state \<Rightarrow> nat" where
  "remaining_work plan s =
     2 * (length (filesToCompress plan) - fileIndex s) + sum_list (map worker_weight (pool s))"

text \<open>The state after \<open>k\<close> iterations of the spawning loop, in closed form.\<close>

definition spawned :: "BatchPlan \<Rightarrow> nat \<Rightarrow> pool_state" where
  "spawned plan k =
     \<lparr> fileIndex = min k (length (filesToCompress plan)),
       currentlyProcessing = take k (filesToCompress plan),
       compressionResults = [],
       processedCount = 0,
       pool = map (\<lambda>i. AwaitingCompress i (filesToCompress plan ! i))
                [0..<min k (length (filesToCompress plan))]
              @ replicate (k - length (filesToCompress plan)) Returned,
       claimLog = map (\<lambda>i. (i, i)) [0..<min k (length (filesToCompress plan))] \<rparr>"

subsection \<open>Sample plans, schedules and backends\<close>

definition example_plan :: BatchPlan where
  "example_plan = \<lparr> filesToCompress = [''/p/a.png'', ''/p/b.png'', ''/p/c.zip''],
                      plugins = [''WebP Converter''], poolSize = 2 \<rparr>"

definition example_schedule :: "nat list" where
  "example_schedule = [1, 0, 1, 0, 1, 1]"

definition wide_plan :: BatchPlan where
  "wide_plan = \<lparr> filesToCompress = [''/p/a.png'', ''/p/b.png'', ''/p/c.zip''],
                   plugins = [''WebP Converter''], poolSize = 5 \<rparr>"

definition single_plan :: BatchPlan where
  "single_plan = \<lparr> filesToCompress = [''/p/a.png''], plugins = [''WebP Converter''],
                     poolSize = 1 \<rparr>"

text \<open>
  Three backends next to the mock: one that answers every call with an empty array, one
  that rejects every call with an \<open>Error\<close> whose message is empty, and one that rejects
  the call for one file with a value that is not an \<open>Error\<close>.
\<close>

definition empty_reply_api :: compress_api where
  "empty_reply_api filePaths pluginOrders = Resolved []"

definition empty_message_api :: compress_api where
  "empty_message_api filePaths pluginOrders = Rejected (ErrorInstance [])"

definition failing_api :: compress_api where
  "failing_api filePaths pluginOrders =
     (if filePaths = [''/p/b.png''] then Rejected OtherValue
      else mock_compressFilesInPlace filePaths pluginOrders)"

section \<open>Properties of the path utilities\<close>





lemma toLowerCase_length: "length (toLowerCase s) = length s"
  by (simp add: toLowerCase_def)















text \<open>
  C9.  \<open>normalizePath\<close> does not keep the trailing separator of a Windows drive root: the
  length test only spares a path of one character, so \<open>C:\\<close> (here the three characters
  \<open>C\<close>, \<open>:\<close> and backslash) becomes \<open>c:\<close>, where the test "should keep root slash" of
  path.test.ts expects \<open>c:/\<close>.  The root \<open>/\<close> is kept.
\<close>

theorem normalizePath_drops_drive_root_separator:
  "normalizePath [CHR ''C'', CHR '':'', CHR 0x5C] = ''c:'' \<and> normalizePath ''/'' = ''/''"
  by code_simp




section \<open>Properties of the scan-root set\<close>

lemma validatePath_fields:
  "isValid (validatePath p roots) =
     (\<not> list_ex (\<lambda>e. normalizePath e = normalizePath p) roots \<and> findParentPaths p roots = [])"
  "isDuplicate (validatePath p roots) = list_ex (\<lambda>e. normalizePath e = normalizePath p) roots"
  "isSubpathOf (validatePath p roots) = findParentPaths p roots"
  "hasSubpaths (validatePath p roots) = findChildPaths p roots"
  by (simp_all add: validatePath_def Let_def)

lemma handlePathAdded_scanPaths:
  "scanPaths (handlePathAdded p h st) =
     (if isValid (validatePath p (scanPaths st))
      then filter (\<lambda>q. \<not> isSubpath q p) (scanPaths st) @ [p]
      else scanPaths st)"
proof -
  have "filter (\<lambda>q. q \<notin> set (findChildPaths p (scanPaths st))) (scanPaths st)
      = filter (\<lambda>q. \<not> isSubpath q p) (scanPaths st)"
    by (rule filter_cong) (auto simp add: findChildPaths_def)
  then show ?thesis
    by (auto simp add: handlePathAdded_def Let_def validatePath_fields)
qed

lemma isSubpath_irrefl: "\<not> isSubpath p p"
  by (simp add: isSubpath_def)

text \<open>
  With the sub-path test of the code, the set stays free of duplicates and of nested
  entries under every add, and so under every sequence of adds.
\<close>

lemma handlePathAdded_preserves_code_invariant:
  assumes "roots_invariant_code (scanPaths st)"
  shows "roots_invariant_code (scanPaths (handlePathAdded p h st))"
proof (cases "isValid (validatePath p (scanPaths st))")
  case False
  then show ?thesis using assms by (simp add: handlePathAdded_scanPaths)
next
  case True
  let ?keep = "filter (\<lambda>q. \<not> isSubpath q p) (scanPaths st)"
  have nodup: "normalizePath p \<notin> normalizePath ` set (scanPaths st)"
    using True by (auto simp add: validatePath_fields list_ex_iff)
  have nopar: "\<forall>b \<in> set (scanPaths st). \<not> isSubpath p b"
    using True by (auto simp add: validatePath_fields findParentPaths_def filter_empty_conv)
  have old: "distinct (map normalizePath (scanPaths st))"
    "\<forall>a \<in> set (scanPaths st). \<forall>b \<in> set (scanPaths st). \<not> isSubpath a b"
    using assms by (simp_all add: roots_invariant_code_def list_all_iff)
  have "distinct (map normalizePath ?keep)" using old(1) by (rule distinct_map_filter)
  moreover have "normalizePath p \<notin> normalizePath ` set ?keep" using nodup by auto
  ultimately have d: "distinct (map normalizePath (?keep @ [p]))" by simp
  have "\<forall>a \<in> set (?keep @ [p]). \<forall>b \<in> set (?keep @ [p]). \<not> isSubpath a b"
    using old(2) nopar isSubpath_irrefl by auto
  then show ?thesis using d True
    by (simp add: handlePathAdded_scanPaths roots_invariant_code_def list_all_iff)
qed

lemma add_all_preserves_code_invariant:
  assumes "roots_invariant_code (scanPaths st)"
  shows "roots_invariant_code (scanPaths (add_all ps st))"
  using assms
proof (induction ps arbitrary: st)
  case Nil
  then show ?case by (simp add: add_all_def)
next
  case (Cons p ps)
  have "roots_invariant_code (scanPaths (handlePathAdded p [] st))"
    using Cons.prems by (rule handlePathAdded_preserves_code_invariant)
  then have "roots_invariant_code (scanPaths (add_all ps (handlePathAdded p [] st)))"
    by (rule Cons.IH)
  then show ?case by (simp add: add_all_def)
qed

text \<open>
  The test of the code is the one of the specification restricted to parents whose
  normalized form is followed by a separator in the child: a parent whose normalized form
  itself ends in a separator, as the root \<open>/\<close> does, is never recognised.
\<close>

lemma startsWith_append:
  "startsWith s (pre @ [c]) \<longleftrightarrow> startsWith s pre \<and> startsWith (drop (length pre) s) [c]"
proof (cases "length pre < length s")
  case True
  then have "take (Suc (length pre)) s = take (length pre) s @ [s ! length pre]"
    by (simp add: take_Suc_conv_app_nth)
  moreover have "take (Suc 0) (drop (length pre) s) = [s ! length pre]"
    using True by (simp add: take_Suc_conv_app_nth)
  ultimately show ?thesis by (auto simp add: startsWith_def)
next
  case False
  then have "take (Suc (length pre)) s = s" "drop (length pre) s = []" by simp_all
  then show ?thesis using False by (auto simp add: startsWith_def)
qed

lemma isSubpath_spec:
  "isSubpath a b \<longleftrightarrow>
     strict_subpath_spec a b \<and> startsWith (drop (length (normalizePath b)) (normalizePath a)) ''/''"
  by (auto simp add: isSubpath_def strict_subpath_spec_def Let_def startsWith_append)

text \<open>
  C8.  Starting from the empty set, adding \<open>/\<close> and then \<open>/a\<close> leaves both in the set,
  although \<open>/a\<close> lies below \<open>/\<close>; adding them in the other order does not remove \<open>/a\<close>.
  \<open>isSubpath\<close> tests for the prefix \<open>//\<close>, because the normalized root keeps its slash
  and a second one is appended.
\<close>

theorem root_children_not_detected:
  "scanPaths (handlePathAdded ''/a'' []
      (handlePathAdded ''/'' [] \<lparr> scanPaths = [], invalidPaths = [] \<rparr>)) = [''/'', ''/a'']
   \<and> normalizePath ''/'' = ''/'' \<and> normalizePath ''/a'' = ''/a''
   \<and> strict_subpath_spec ''/a'' ''/''
   \<and> \<not> isSubpath ''/a'' ''/''
   \<and> \<not> roots_invariant_spec [''/'', ''/a'']
   \<and> scanPaths (handlePathAdded ''/'' []
      (handlePathAdded ''/a'' [] \<lparr> scanPaths = [], invalidPaths = [] \<rparr>)) = [''/a'', ''/'']"
  by code_simp

section \<open>Properties of the step management\<close>

text \<open>
  Every handler that writes the selection keeps it inside the scanned files; a toggle does
  so when it is the toggle of a listed file, which is what the file lists offer.
\<close>

lemma selection_inv_initial: "selection_inv initial_page_state"
  by (simp add: selection_inv_def initial_page_state_def)

lemma selection_inv_handleScan_start:
  "selection_inv st \<Longrightarrow> selection_inv (handleScan_start ps ap st)"
  by (simp add: selection_inv_def handleScan_start_def)

lemma selection_inv_handleScan_settle:
  "selection_inv (handleScan_start ps ap st) \<Longrightarrow>
   selection_inv (handleScan_settle out (handleScan_start ps ap st))"
  by (cases out) (simp_all add: selection_inv_def handleScan_settle_def)

lemma selection_inv_toggleFileSelection:
  "selection_inv st \<Longrightarrow> p \<in> set (map cf_path (compressibleFiles st)) \<Longrightarrow>
   selection_inv (toggleFileSelection p st)"
  by (auto simp add: selection_inv_def toggleFileSelection_def)

lemma selection_inv_toggleAllFiles: "selection_inv (toggleAllFiles st)"
  by (simp add: selection_inv_def toggleAllFiles_def)

lemma selection_inv_startNewScan: "selection_inv (startNewScan st)"
  by (simp add: selection_inv_def startNewScan_def)

lemma selection_inv_goToConfirm: "selection_inv st \<Longrightarrow> selection_inv (goToConfirm st)"
  by (auto simp add: selection_inv_def goToConfirm_def)

lemma some_file_selected_iff:
  assumes "selection_inv st"
  shows "some_file_selected st \<longleftrightarrow> selectedFiles st \<noteq> {}"
  using assms by (auto simp add: some_file_selected_def selection_inv_def list_ex_iff)

text \<open>
  C7, as stated: with nothing selected the transition is not rejected with a validation
  error.  After a scan that found one file and the deselection of that file, the "Next"
  button is disabled: a click leaves the page as it is, at the scan step and with no
  error.
\<close>

theorem next_button_reports_no_error:
  "currentStep deselected_page = Scan
   \<and> compressibleFiles deselected_page = [sample_file]
   \<and> selectedFiles deselected_page = {}
   \<and> appState_error deselected_page = None
   \<and> next_button_click deselected_page = deselected_page"
  by (simp add: deselected_page_def scanned_page_def toggleAllFiles_def handleScan_settle_def
        handleScan_start_def initial_page_state_def next_button_click_def sample_file_def)

text \<open>
  C7, amended: in the scan step the transition to the confirm step (a click on "Next")
  succeeds if and only if at least one of the scanned files is selected; when no file is
  selected the click changes nothing: the step remains the scan step and no validation
  error is reported.
\<close>

theorem scan_to_confirm_transition:
  assumes "currentStep st = Scan" and "selection_inv st"
  shows "(currentStep (next_button_click st) = Confirm \<longleftrightarrow> some_file_selected st)
       \<and> (\<not> some_file_selected st \<longrightarrow> next_button_click st = st)"
proof (cases "selectedFiles st = {}")
  case True
  then show ?thesis
    using assms some_file_selected_iff[OF assms(2)] by (simp add: next_button_click_def)
next
  case False
  then have "compressibleFiles st \<noteq> []" using assms(2) by (auto simp add: selection_inv_def)
  then show ?thesis
    using False assms some_file_selected_iff[OF assms(2)]
    by (simp add: next_button_click_def goToConfirm_def)
qed

theorem scan_to_confirm_transition_witness:
  "currentStep scanned_page = Scan \<and> selection_inv scanned_page
   \<and> some_file_selected scanned_page
   \<and> currentStep (next_button_click scanned_page) = Confirm"
proof -
  have h1: "currentStep scanned_page = Scan"
    by (simp add: scanned_page_def handleScan_settle_def handleScan_start_def
          initial_page_state_def)
  have h2: "selection_inv scanned_page"
    unfolding scanned_page_def
    by (intro selection_inv_handleScan_settle selection_inv_handleScan_start
          selection_inv_initial)
  have h3: "some_file_selected scanned_page"
    by (simp add: some_file_selected_def scanned_page_def handleScan_settle_def
          handleScan_start_def initial_page_state_def)
  show ?thesis using scan_to_confirm_transition [OF h1 h2] h1 h2 h3 by blast
qed

section \<open>Properties of the worker pool\<close>

subsection \<open>One resumption\<close>

lemma resume_settle:
  assumes "resume api plan w s = Some s'" "pool s ! w = AwaitingCompress i p"
  shows "w < length (pool s)"
    and "fileIndex s' = fileIndex s"
    and "currentlyProcessing s' = filter (\<lambda>q. q \<noteq> p) (currentlyProcessing s)"
    and "compressionResults s' = compressionResults s @
           (case api [p] (plugins plan) of Resolved rs \<Rightarrow> rs | Rejected err \<Rightarrow> [failure_result p err])"
    and "processedCount s' = processedCount s + 1"
    and "pool s' = (pool s)[w := AwaitingTimer]"
    and "claimLog s' = claimLog s"
  using assms
  by (auto simp add: resume_def after_compress_def Let_def split: if_splits outcome.splits)

lemma resume_claim:
  assumes "resume api plan w s = Some s'" "pool s ! w = AwaitingTimer"
    "fileIndex s < length (filesToCompress plan)"
  shows "w < length (pool s)"
    and "fileIndex s' = fileIndex s + 1"
    and "currentlyProcessing s' = currentlyProcessing s @ [filesToCompress plan ! fileIndex s]"
    and "compressionResults s' = compressionResults s"
    and "processedCount s' = processedCount s"
    and "pool s' = (pool s)[w := AwaitingCompress (fileIndex s) (filesToCompress plan ! fileIndex s)]"
    and "claimLog s' = claimLog s @ [(w, fileIndex s)]"
  using assms
  by (auto simp add: resume_def worker_loop_def Let_def split: if_splits)

lemma resume_return:
  assumes "resume api plan w s = Some s'" "pool s ! w = AwaitingTimer"
    "\<not> fileIndex s < length (filesToCompress plan)"
  shows "w < length (pool s)"
    and "fileIndex s' = fileIndex s"
    and "currentlyProcessing s' = currentlyProcessing s"
    and "compressionResults s' = compressionResults s"
    and "processedCount s' = processedCount s"
    and "pool s' = (pool s)[w := Returned]"
    and "claimLog s' = claimLog s"
  using assms
  by (auto simp add: resume_def worker_loop_def Let_def split: if_splits)

lemma resume_cases [consumes 1, case_names settle claim return]:
  assumes "resume api plan w s = Some s'"
  obtains i p where "pool s ! w = AwaitingCompress i p"
  | "pool s ! w = AwaitingTimer" "fileIndex s < length (filesToCompress plan)"
  | "pool s ! w = AwaitingTimer" "\<not> fileIndex s < length (filesToCompress plan)"
  using assms by (cases "pool s ! w") (auto simp add: resume_def split: if_splits)

lemma run_schedule_induct:
  assumes run: "run_schedule api plan sched s0 = Some s"
    and base: "Q s0"
    and step: "\<And>w t t'. Q t \<Longrightarrow> resume api plan w t = Some t' \<Longrightarrow> Q t'"
  shows "Q s"
  using run base
proof (induction sched arbitrary: s0)
  case Nil
  then show ?case by simp
next
  case (Cons w ws)
  then obtain t where t: "resume api plan w s0 = Some t" "run_schedule api plan ws t = Some s"
    by (auto split: option.splits)
  then show ?case using Cons.IH[OF t(2)] step[OF Cons.prems(2) t(1)] by blast
qed

subsection \<open>The spawning loop\<close>

lemma spawn_worker_spawned: "spawn_worker plan (spawned plan k) = spawned plan (Suc k)"
proof (cases "k < length (filesToCompress plan)")
  case True
  then have m: "min k (length (filesToCompress plan)) = k"
    "min (Suc k) (length (filesToCompress plan)) = Suc k"
    "k - length (filesToCompress plan) = 0" "Suc k - length (filesToCompress plan) = 0"
    by simp_all
  show ?thesis using True
    by (simp add: spawn_worker_def worker_loop_def spawned_def m Let_def take_Suc_conv_app_nth)
next
  case False
  then have m: "min k (length (filesToCompress plan)) = length (filesToCompress plan)"
    "min (Suc k) (length (filesToCompress plan)) = length (filesToCompress plan)"
    "Suc k - length (filesToCompress plan) = Suc (k - length (filesToCompress plan))"
    by simp_all
  show ?thesis using False
    by (simp add: spawn_worker_def worker_loop_def spawned_def m replicate_append_same)
qed

lemma spawn_funpow: "((spawn_worker plan) ^^ k) initial_pool_state = spawned plan k"
proof (induction k)
  case 0
  show ?case by (simp add: spawned_def initial_pool_state_def)
next
  case (Suc k)
  then show ?case by (simp add: spawn_worker_spawned)
qed

lemma spawn_all_eq: "spawn_all plan = spawned plan (poolSize plan)"
  by (simp add: spawn_all_def spawn_funpow)

lemma spawned_pool_nth:
  assumes "w < length (pool (spawned plan k))"
  shows "pool (spawned plan k) ! w =
     (if w < min k (length (filesToCompress plan))
      then AwaitingCompress w (filesToCompress plan ! w) else Returned)"
  using assms by (auto simp add: spawned_def nth_append)

lemma spawned_pool_length: "length (pool (spawned plan k)) = k"
  by (simp add: spawned_def)

lemma take_min_length: "take (min k (length xs)) xs = take k xs"
  by (cases "k \<le> length xs") (simp_all add: min_def)

subsection \<open>Preservation of the invariants\<close>

lemma cursor_inv_resume:
  assumes inv: "cursor_inv plan s" and step: "resume api plan w s = Some s'"
  shows "cursor_inv plan s'"
  using step
proof (cases rule: resume_cases)
  case (settle i p)
  note r = resume_settle[OF step settle]
  have "Returned \<in> set (pool s') \<Longrightarrow> Returned \<in> set (pool s)"
    using set_update_subset_insert[of "pool s" w AwaitingTimer] by (auto simp add: r)
  then show ?thesis using inv by (auto simp add: cursor_inv_def r)
next
  case claim
  note r = resume_claim[OF step claim]
  have "Returned \<notin> set (pool s)" using inv claim by (auto simp add: cursor_inv_def)
  then have "Returned \<notin> set (pool s')"
    using set_update_subset_insert[of "pool s" w "AwaitingCompress (fileIndex s) (filesToCompress plan ! fileIndex s)"]
    by (auto simp add: r)
  then show ?thesis using inv claim r(1) by (auto simp add: cursor_inv_def r)
next
  case return
  note r = resume_return[OF step return]
  show ?thesis using inv return by (auto simp add: cursor_inv_def r)
qed

lemma cursor_inv_spawn_all: "cursor_inv plan (spawn_all plan)"
  unfolding spawn_all_eq cursor_inv_def
  by (auto simp add: spawned_def comp_def map_idI)

lemma cursor_inv_run:
  assumes "run_schedule api plan sched (spawn_all plan) = Some s"
  shows "cursor_inv plan s"
  using assms cursor_inv_spawn_all cursor_inv_resume
  by (rule run_schedule_induct)

lemma filter_neq_mset:
  "distinct xs \<Longrightarrow> x \<in> set xs \<Longrightarrow> add_mset x (mset (filter (\<lambda>y. y \<noteq> x) xs)) = mset xs"
proof (induction xs)
  case Nil
  then show ?case by simp
next
  case (Cons a xs)
  show ?case
  proof (cases "a = x")
    case True
    then have "x \<notin> set xs" using Cons.prems by simp
    then have "filter (\<lambda>y. y \<noteq> x) xs = xs" by (auto simp add: filter_id_conv)
    then show ?thesis using True by simp
  next
    case False
    then have "x \<in> set xs" using Cons.prems by simp
    then have "add_mset x (mset (filter (\<lambda>y. y \<noteq> x) xs)) = mset xs"
      using Cons.IH Cons.prems by simp
    then show ?thesis using False by simp
  qed
qed

lemma filter_neq_length:
  assumes "distinct xs" "x \<in> set xs"
  shows "Suc (length (filter (\<lambda>y. y \<noteq> x) xs)) = length xs"
proof -
  have "mset (x # filter (\<lambda>y. y \<noteq> x) xs) = mset xs"
    using filter_neq_mset[OF assms] by simp
  then have "length (x # filter (\<lambda>y. y \<noteq> x) xs) = length xs"
    by (rule mset_eq_length)
  then show ?thesis by simp
qed

lemma flight_inv_resume:
  assumes d: "distinct (filesToCompress plan)"
    and inv: "flight_inv plan s" and step: "resume api plan w s = Some s'"
  shows "flight_inv plan s'"
  using step
proof (cases rule: resume_cases)
  case (settle i p)
  note r = resume_settle[OF step settle]
  have pin: "p \<in> set (currentlyProcessing s)"
    using inv settle r(1) by (auto simp add: flight_inv_def)
  have dist: "distinct (currentlyProcessing s)" using inv by (simp add: flight_inv_def)
  have other: "\<And>w' i' p'. w' < length (pool s) \<Longrightarrow> pool s ! w' = AwaitingCompress i' p' \<Longrightarrow>
      w' \<noteq> w \<Longrightarrow> p' \<noteq> p"
    using inv settle r(1) unfolding flight_inv_def by blast
  have a: "distinct (currentlyProcessing s')" using dist by (simp add: r)
  have b: "\<forall>w'<length (pool s'). \<forall>i' p'. pool s' ! w' = AwaitingCompress i' p' \<longrightarrow>
        i' < fileIndex s' \<and> p' = filesToCompress plan ! i' \<and> p' \<in> set (currentlyProcessing s')"
  proof (intro allI impI)
    fix w' i' p'
    assume w': "w' < length (pool s')" and aw: "pool s' ! w' = AwaitingCompress i' p'"
    then have ne: "w' \<noteq> w" using r(1) by (auto simp add: r)
    then have old: "pool s ! w' = AwaitingCompress i' p'" "w' < length (pool s)"
      using aw w' by (simp_all add: r)
    then have "i' < fileIndex s \<and> p' = filesToCompress plan ! i' \<and> p' \<in> set (currentlyProcessing s)"
      using inv unfolding flight_inv_def by blast
    moreover have "p' \<noteq> p" using other[OF old(2) old(1) ne] .
    ultimately show "i' < fileIndex s' \<and> p' = filesToCompress plan ! i' \<and> p' \<in> set (currentlyProcessing s')"
      unfolding r by auto
  qed
  have c: "\<forall>p' \<in> set (currentlyProcessing s'). \<exists>w'<length (pool s'). \<exists>i'. pool s' ! w' = AwaitingCompress i' p'"
  proof
    fix p' assume "p' \<in> set (currentlyProcessing s')"
    then have p': "p' \<in> set (currentlyProcessing s)" "p' \<noteq> p" by (simp_all add: r)
    then obtain w' i' where w': "w' < length (pool s)" "pool s ! w' = AwaitingCompress i' p'"
      using inv unfolding flight_inv_def by blast
    then have "w' \<noteq> w" using settle p'(2) by auto
    then show "\<exists>w'<length (pool s'). \<exists>i'. pool s' ! w' = AwaitingCompress i' p'"
      using w' by (auto simp add: r)
  qed
  have e: "\<forall>w1<length (pool s'). \<forall>w2<length (pool s'). \<forall>i1 i2 q.
        pool s' ! w1 = AwaitingCompress i1 q \<and> pool s' ! w2 = AwaitingCompress i2 q \<longrightarrow> w1 = w2"
  proof (intro allI impI)
    fix w1 w2 i1 i2 q
    assume w1: "w1 < length (pool s')" and w2: "w2 < length (pool s')"
      and aw: "pool s' ! w1 = AwaitingCompress i1 q \<and> pool s' ! w2 = AwaitingCompress i2 q"
    then have "w1 \<noteq> w" "w2 \<noteq> w" using r(1) by (auto simp add: r)
    then have "pool s ! w1 = AwaitingCompress i1 q" "pool s ! w2 = AwaitingCompress i2 q"
      "w1 < length (pool s)" "w2 < length (pool s)"
      using aw w1 w2 by (simp_all add: r)
    then show "w1 = w2" using inv unfolding flight_inv_def by blast
  qed
  have f: "processedCount s' + length (currentlyProcessing s') = fileIndex s'"
    using filter_neq_length[OF dist pin] inv by (simp add: r flight_inv_def)
  show ?thesis unfolding flight_inv_def using a b c e f by blast
next
  case claim
  note r = resume_claim[OF step claim]
  let ?k = "fileIndex s"
  let ?q = "filesToCompress plan ! ?k"
  have old_idx: "\<And>w' i' p'. w' < length (pool s) \<Longrightarrow> pool s ! w' = AwaitingCompress i' p' \<Longrightarrow>
      i' < ?k \<and> p' = filesToCompress plan ! i' \<and> p' \<in> set (currentlyProcessing s)"
    using inv unfolding flight_inv_def by blast
  have fresh: "?q \<notin> set (currentlyProcessing s)"
  proof
    assume "?q \<in> set (currentlyProcessing s)"
    then obtain w' i' where w': "w' < length (pool s)" "pool s ! w' = AwaitingCompress i' ?q"
      using inv unfolding flight_inv_def by blast
    then have "i' < ?k" "?q = filesToCompress plan ! i'" using old_idx by blast+
    then show False using d claim(2) by (simp add: nth_eq_iff_index_eq)
  qed
  have a: "distinct (currentlyProcessing s')" using inv fresh by (simp add: r flight_inv_def)
  have b: "\<forall>w'<length (pool s'). \<forall>i' p'. pool s' ! w' = AwaitingCompress i' p' \<longrightarrow>
        i' < fileIndex s' \<and> p' = filesToCompress plan ! i' \<and> p' \<in> set (currentlyProcessing s')"
  proof (intro allI impI)
    fix w' i' p'
    assume w': "w' < length (pool s')" and aw: "pool s' ! w' = AwaitingCompress i' p'"
    show "i' < fileIndex s' \<and> p' = filesToCompress plan ! i' \<and> p' \<in> set (currentlyProcessing s')"
    proof (cases "w' = w")
      case True
      then show ?thesis using aw r(1) by (auto simp add: r)
    next
      case False
      then have "pool s ! w' = AwaitingCompress i' p'" "w' < length (pool s)"
        using aw w' by (simp_all add: r)
      then show ?thesis using old_idx by (fastforce simp add: r)
    qed
  qed
  have c: "\<forall>p' \<in> set (currentlyProcessing s'). \<exists>w'<length (pool s'). \<exists>i'. pool s' ! w' = AwaitingCompress i' p'"
  proof
    fix p' assume "p' \<in> set (currentlyProcessing s')"
    then consider "p' \<in> set (currentlyProcessing s)" | "p' = ?q" by (auto simp add: r)
    then show "\<exists>w'<length (pool s'). \<exists>i'. pool s' ! w' = AwaitingCompress i' p'"
    proof cases
      case 1
      then obtain w' i' where w': "w' < length (pool s)" "pool s ! w' = AwaitingCompress i' p'"
        using inv unfolding flight_inv_def by blast
      then have "w' \<noteq> w" using claim(1) by auto
      then show ?thesis using w' by (auto simp add: r)
    next
      case 2
      then have "w < length (pool s')" "pool s' ! w = AwaitingCompress ?k p'"
        using r(1) by (simp_all add: r)
      then show ?thesis by blast
    qed
  qed
  have e: "\<forall>w1<length (pool s'). \<forall>w2<length (pool s'). \<forall>i1 i2 q.
        pool s' ! w1 = AwaitingCompress i1 q \<and> pool s' ! w2 = AwaitingCompress i2 q \<longrightarrow> w1 = w2"
  proof (intro allI impI)
    fix w1 w2 i1 i2 q
    assume w1: "w1 < length (pool s')" and w2: "w2 < length (pool s')"
      and aw: "pool s' ! w1 = AwaitingCompress i1 q \<and> pool s' ! w2 = AwaitingCompress i2 q"
    show "w1 = w2"
    proof (rule ccontr)
      assume ne: "w1 \<noteq> w2"
      have old_same: "\<And>u v iu iv. u < length (pool s) \<Longrightarrow> v < length (pool s) \<Longrightarrow>
          pool s ! u = AwaitingCompress iu q \<Longrightarrow> pool s ! v = AwaitingCompress iv q \<Longrightarrow> u = v"
        using inv unfolding flight_inv_def by blast
      have in_old: "\<And>u iu. u < length (pool s) \<Longrightarrow> u \<noteq> w \<Longrightarrow>
          pool s' ! u = AwaitingCompress iu q \<Longrightarrow> q \<in> set (currentlyProcessing s) \<and> pool s ! u = AwaitingCompress iu q"
        using old_idx by (simp add: r)
      consider "w1 = w" "w2 \<noteq> w" | "w2 = w" "w1 \<noteq> w" | "w1 \<noteq> w" "w2 \<noteq> w" using ne by blast
      then show False
      proof cases
        case 1
        then have "q = ?q" using aw r(1) by (auto simp add: r)
        moreover have "q \<in> set (currentlyProcessing s)" using in_old[of w2 i2] 1 w2 aw by (simp add: r)
        ultimately show False using fresh by simp
      next
        case 2
        then have "q = ?q" using aw r(1) by (auto simp add: r)
        moreover have "q \<in> set (currentlyProcessing s)" using in_old[of w1 i1] 2 w1 aw by (simp add: r)
        ultimately show False using fresh by simp
      next
        case 3
        then have "pool s ! w1 = AwaitingCompress i1 q" "pool s ! w2 = AwaitingCompress i2 q"
          using aw by (simp_all add: r)
        then show False using old_same[of w1 w2 i1 i2] w1 w2 ne by (simp add: r)
      qed
    qed
  qed
  have f: "processedCount s' + length (currentlyProcessing s') = fileIndex s'"
    using inv by (simp add: r flight_inv_def)
  show ?thesis unfolding flight_inv_def using a b c e f by blast
next
  case return
  note r = resume_return[OF step return]
  have keep: "\<And>w' i' p'. pool s' ! w' = AwaitingCompress i' p' \<Longrightarrow> w' < length (pool s) \<Longrightarrow>
      pool s ! w' = AwaitingCompress i' p'"
    using r(1) by (auto simp add: r nth_list_update split: if_splits)
  have bk: "\<And>w' i' p'. pool s ! w' = AwaitingCompress i' p' \<Longrightarrow> w' < length (pool s) \<Longrightarrow>
      pool s' ! w' = AwaitingCompress i' p'"
    using return(1) by (auto simp add: r nth_list_update)
  have len: "length (pool s') = length (pool s)" by (simp add: r)
  show ?thesis
    using inv unfolding flight_inv_def len r(2) r(3) r(5)
    by (meson keep bk)
qed

lemma flight_inv_spawn_all:
  assumes d: "distinct (filesToCompress plan)"
  shows "flight_inv plan (spawn_all plan)"
proof -
  let ?s = "spawned plan (poolSize plan)"
  let ?fs = "filesToCompress plan"
  let ?m = "min (poolSize plan) (length ?fs)"
  have cp: "currentlyProcessing ?s = take (poolSize plan) ?fs" by (simp add: spawned_def)
  have fi: "fileIndex ?s = ?m" by (simp add: spawned_def)
  have pc: "processedCount ?s = 0" by (simp add: spawned_def)
  have nth: "\<And>w. w < length (pool ?s) \<Longrightarrow> pool ?s ! w =
      (if w < ?m then AwaitingCompress w (?fs ! w) else Returned)"
    by (rule spawned_pool_nth)
  have len: "length (pool ?s) = poolSize plan" by (rule spawned_pool_length)
  have a: "distinct (currentlyProcessing ?s)" using d by (simp add: cp)
  have b: "\<forall>w<length (pool ?s). \<forall>i p. pool ?s ! w = AwaitingCompress i p \<longrightarrow>
        i < fileIndex ?s \<and> p = ?fs ! i \<and> p \<in> set (currentlyProcessing ?s)"
  proof (intro allI impI)
    fix w i p assume w: "w < length (pool ?s)" and aw: "pool ?s ! w = AwaitingCompress i p"
    then have "w < ?m" "i = w" "p = ?fs ! w" using nth[OF w] by (auto split: if_splits)
    then show "i < fileIndex ?s \<and> p = ?fs ! i \<and> p \<in> set (currentlyProcessing ?s)"
      unfolding fi cp by (auto simp add: in_set_conv_nth intro!: exI[of _ w])
  qed
  have c: "\<forall>p \<in> set (currentlyProcessing ?s). \<exists>w<length (pool ?s). \<exists>i. pool ?s ! w = AwaitingCompress i p"
  proof
    fix p assume "p \<in> set (currentlyProcessing ?s)"
    then obtain w where w: "w < ?m" "p = ?fs ! w"
      unfolding cp by (auto simp add: in_set_conv_nth)
    then have "w < length (pool ?s)" "pool ?s ! w = AwaitingCompress w p"
      using nth[of w] len by simp_all
    then show "\<exists>w<length (pool ?s). \<exists>i. pool ?s ! w = AwaitingCompress i p" by blast
  qed
  have e: "\<forall>w1<length (pool ?s). \<forall>w2<length (pool ?s). \<forall>i1 i2 q.
        pool ?s ! w1 = AwaitingCompress i1 q \<and> pool ?s ! w2 = AwaitingCompress i2 q \<longrightarrow> w1 = w2"
  proof (intro allI impI)
    fix w1 w2 i1 i2 q
    assume w1: "w1 < length (pool ?s)" and w2: "w2 < length (pool ?s)"
      and aw: "pool ?s ! w1 = AwaitingCompress i1 q \<and> pool ?s ! w2 = AwaitingCompress i2 q"
    then have "w1 < ?m" "q = ?fs ! w1" "w2 < ?m" "q = ?fs ! w2"
      using nth[OF w1] nth[OF w2] by (auto split: if_splits)
    then show "w1 = w2" using d by (simp add: nth_eq_iff_index_eq)
  qed
  have f: "processedCount ?s + length (currentlyProcessing ?s) = fileIndex ?s"
    by (simp add: pc cp fi min.commute)
  show ?thesis unfolding spawn_all_eq flight_inv_def using a b c e f by blast
qed

lemma settled_results_path:
  assumes "one_result_per_call api plan" "p \<in> set (filesToCompress plan)"
  shows "map path (settled_results api plan p) = [p]"
proof (cases "api [p] (plugins plan)")
  case (Resolved rs)
  then have "length rs = 1 \<and> path (hd rs) = p"
    using assms by (auto simp add: one_result_per_call_def list_all_iff)
  then show ?thesis using Resolved by (cases rs) (simp_all add: settled_results_def)
next
  case (Rejected err)
  then show ?thesis by (simp add: settled_results_def failure_result_def)
qed

lemma results_inv_resume:
  assumes one: "one_result_per_call api plan"
    and c: "cursor_inv plan s" and f: "flight_inv plan s"
    and inv: "results_inv plan s" and step: "resume api plan w s = Some s'"
  shows "results_inv plan s'"
  using step
proof (cases rule: resume_cases)
  case (settle i p)
  note r = resume_settle[OF step settle]
  have ip: "i < fileIndex s" "p = filesToCompress plan ! i" "p \<in> set (currentlyProcessing s)"
    using f settle r(1) unfolding flight_inv_def by blast+
  then have "p \<in> set (filesToCompress plan)" using c by (simp add: cursor_inv_def)
  then have new: "map path (settled_results api plan p) = [p]"
    using settled_results_path[OF one] by blast
  have dist: "distinct (currentlyProcessing s)" using f by (simp add: flight_inv_def)
  have res: "compressionResults s' = compressionResults s @ settled_results api plan p"
    by (simp add: r(4) settled_results_def)
  have "mset (map path (compressionResults s')) + mset (currentlyProcessing s')
      = mset (map path (compressionResults s))
        + add_mset p (mset (filter (\<lambda>q. q \<noteq> p) (currentlyProcessing s)))"
    unfolding res r(3) by (simp add: new)
  also have "\<dots> = mset (map path (compressionResults s)) + mset (currentlyProcessing s)"
    using filter_neq_mset[OF dist ip(3)] by simp
  finally show ?thesis using inv by (simp add: results_inv_def r(2))
next
  case claim
  note r = resume_claim[OF step claim]
  show ?thesis using inv claim(2)
    by (simp add: results_inv_def r take_Suc_conv_app_nth)
next
  case return
  note r = resume_return[OF step return]
  show ?thesis using inv by (simp add: results_inv_def r)
qed

lemma results_inv_spawn_all: "results_inv plan (spawn_all plan)"
  by (simp add: spawn_all_eq results_inv_def spawned_def take_min_length)

lemma recorded_inv_resume:
  assumes inv: "recorded_inv api plan s" and step: "resume api plan w s = Some s'"
  shows "recorded_inv api plan s'"
  using step
proof (cases rule: resume_cases)
  case (settle i p)
  note r = resume_settle[OF step settle]
  have res: "compressionResults s' = compressionResults s @ settled_results api plan p"
    by (simp add: r(4) settled_results_def)
  show ?thesis unfolding recorded_inv_def
  proof (intro allI impI)
    fix j assume j: "j < fileIndex s'" and nf: "filesToCompress plan ! j \<notin> set (currentlyProcessing s')"
    show "set (settled_results api plan (filesToCompress plan ! j)) \<subseteq> set (compressionResults s')"
    proof (cases "filesToCompress plan ! j = p")
      case True
      then show ?thesis by (simp add: res)
    next
      case False
      then have "filesToCompress plan ! j \<notin> set (currentlyProcessing s)" using nf by (simp add: r)
      then have "set (settled_results api plan (filesToCompress plan ! j)) \<subseteq> set (compressionResults s)"
        using inv j unfolding recorded_inv_def by (simp add: r)
      then show ?thesis by (auto simp add: res)
    qed
  qed
next
  case claim
  note r = resume_claim[OF step claim]
  show ?thesis unfolding recorded_inv_def
  proof (intro allI impI)
    fix j assume j: "j < fileIndex s'" and nf: "filesToCompress plan ! j \<notin> set (currentlyProcessing s')"
    then have "j \<noteq> fileIndex s" "filesToCompress plan ! j \<notin> set (currentlyProcessing s)"
      by (auto simp add: r)
    then have "j < fileIndex s" using j by (simp add: r)
    then show "set (settled_results api plan (filesToCompress plan ! j)) \<subseteq> set (compressionResults s')"
      using inv \<open>filesToCompress plan ! j \<notin> set (currentlyProcessing s)\<close>
      unfolding recorded_inv_def by (simp add: r)
  qed
next
  case return
  note r = resume_return[OF step return]
  show ?thesis using inv by (simp add: recorded_inv_def r)
qed

lemma recorded_inv_spawn_all: "recorded_inv api plan (spawn_all plan)"
  unfolding spawn_all_eq recorded_inv_def
  by (auto simp add: spawned_def in_set_conv_nth)

lemma weight_update:
  assumes "w < length ws"
  shows "sum_list (map worker_weight (ws[w := x])) + worker_weight (ws ! w)
           = sum_list (map worker_weight ws) + worker_weight x"
  using assms
proof (induction ws arbitrary: w)
  case Nil
  then show ?case by simp
next
  case (Cons a ws)
  then show ?case by (cases w) (simp_all add: algebra_simps)
qed

lemma remaining_work_resume:
  assumes c: "cursor_inv plan s" and step: "resume api plan w s = Some s'"
  shows "Suc (remaining_work plan s') = remaining_work plan s"
  using step
proof (cases rule: resume_cases)
  case (settle i p)
  note r = resume_settle[OF step settle]
  show ?thesis using weight_update[OF r(1), of AwaitingTimer] settle
    by (simp add: remaining_work_def r)
next
  case claim
  note r = resume_claim[OF step claim]
  show ?thesis
    using weight_update[OF r(1), of "AwaitingCompress (fileIndex s) (filesToCompress plan ! fileIndex s)"] claim
    by (simp add: remaining_work_def r)
next
  case return
  note r = resume_return[OF step return]
  show ?thesis using weight_update[OF r(1), of Returned] return
    by (simp add: remaining_work_def r)
qed

lemma remaining_work_spawn_all:
  "remaining_work plan (spawn_all plan) = 2 * length (filesToCompress plan)"
proof -
  have "sum_list (map worker_weight (map (\<lambda>i. AwaitingCompress i (filesToCompress plan ! i)) [0..<m])) = 2 * m" for m
    by (induction m) simp_all
  moreover have "sum_list (map worker_weight (replicate k Returned)) = 0" for k
    by (induction k) simp_all
  ultimately have "sum_list (map worker_weight (pool (spawned plan (poolSize plan))))
      = 2 * min (poolSize plan) (length (filesToCompress plan))"
    by (simp add: spawned_def)
  then show ?thesis
    by (simp add: spawn_all_eq remaining_work_def) (simp add: spawned_def)
qed

lemma remaining_work_run:
  assumes "run_schedule api plan sched s0 = Some s" "cursor_inv plan s0"
  shows "remaining_work plan s + length sched = remaining_work plan s0 \<and> cursor_inv plan s"
  using assms
proof (induction sched arbitrary: s0)
  case Nil
  then show ?case by simp
next
  case (Cons w ws)
  then obtain t where t: "resume api plan w s0 = Some t" "run_schedule api plan ws t = Some s"
    by (auto split: option.splits)
  have ct: "cursor_inv plan t" using Cons.prems(2) t(1) by (rule cursor_inv_resume)
  show ?case
    using Cons.IH[OF t(2) ct] remaining_work_resume[OF Cons.prems(2) t(1)] by simp
qed

lemma complete_iff_no_work:
  assumes c: "cursor_inv plan s" and p: "1 \<le> poolSize plan"
  shows "run_complete s \<longleftrightarrow> remaining_work plan s = 0"
proof
  assume rc: "run_complete s"
  then have all: "\<forall>ws \<in> set (pool s). ws = Returned" by (simp add: run_complete_def list_all_iff)
  have "pool s \<noteq> []" using c p by (auto simp add: cursor_inv_def)
  then have "Returned \<in> set (pool s)" using all by (cases "pool s") auto
  then have "fileIndex s = length (filesToCompress plan)" using c by (simp add: cursor_inv_def)
  moreover have "sum_list (map worker_weight (pool s)) = 0" using all by (auto simp add: sum_list_eq_0_iff)
  ultimately show "remaining_work plan s = 0" by (simp add: remaining_work_def)
next
  assume "remaining_work plan s = 0"
  then have "\<forall>ws \<in> set (pool s). worker_weight ws = 0"
    by (simp add: remaining_work_def sum_list_eq_0_iff)
  then have "\<forall>ws \<in> set (pool s). ws = Returned"
    by (metis worker_weight.elims zero_neq_numeral zero_neq_one)
  then show "run_complete s" by (simp add: run_complete_def list_all_iff)
qed

lemma not_complete_can_resume:
  assumes "\<not> run_complete s"
  shows "\<exists>w<length (pool s). \<exists>s'. resume api plan w s = Some s'"
proof -
  from assms obtain w where w: "w < length (pool s)" "pool s ! w \<noteq> Returned"
    by (auto simp add: run_complete_def list_all_iff in_set_conv_nth)
  then have "\<exists>s'. resume api plan w s = Some s'"
    by (cases "pool s ! w") (auto simp add: resume_def split: prod.splits)
  then show ?thesis using w(1) by blast
qed

lemma results_inv_run:
  assumes d: "distinct (filesToCompress plan)" and one: "one_result_per_call api plan"
    and run: "run_schedule api plan sched (spawn_all plan) = Some s"
  shows "results_inv plan s"
proof -
  let ?Q = "\<lambda>t. cursor_inv plan t \<and> flight_inv plan t \<and> results_inv plan t"
  have "?Q s" using run
  proof (rule run_schedule_induct)
    show "?Q (spawn_all plan)"
      using cursor_inv_spawn_all flight_inv_spawn_all[OF d] results_inv_spawn_all by blast
  next
    fix w t t' assume q: "?Q t" and st: "resume api plan w t = Some t'"
    show "?Q t'"
      using q cursor_inv_resume[OF _ st] flight_inv_resume[OF d _ st]
        results_inv_resume[OF one _ _ _ st] by blast
  qed
  then show ?thesis by blast
qed

lemma recorded_inv_run:
  assumes "run_schedule api plan sched (spawn_all plan) = Some s"
  shows "recorded_inv api plan s"
  using assms recorded_inv_spawn_all recorded_inv_resume
  by (rule run_schedule_induct)

lemma awaiting_update:
  assumes "w < length ws"
  shows "awaiting_paths (ws[w := x]) + in_flight_of (ws ! w) = awaiting_paths ws + in_flight_of x"
  using assms
proof (induction ws arbitrary: w)
  case Nil
  then show ?case by simp
next
  case (Cons a ws)
  show ?case
  proof (cases w)
    case 0
    then show ?thesis by (simp add: awaiting_paths_def)
  next
    case (Suc v)
    then have "awaiting_paths (ws[v := x]) + in_flight_of (ws ! v) = awaiting_paths ws + in_flight_of x"
      using Cons by simp
    then show ?thesis using Suc by (simp add: awaiting_paths_def add.assoc)
  qed
qed

lemma awaiting_size: "size (awaiting_paths ws) \<le> length ws"
proof (induction ws)
  case Nil
  then show ?case by (simp add: awaiting_paths_def)
next
  case (Cons a ws)
  then show ?case by (cases a) (simp_all add: awaiting_paths_def)
qed

lemma awaiting_none:
  assumes "\<forall>ws \<in> set pl. ws = Returned"
  shows "awaiting_paths pl = {#}"
  using assms by (induction pl) (simp_all add: awaiting_paths_def)

lemma awaiting_spawned:
  "awaiting_paths (pool (spawned plan k)) = mset (take k (filesToCompress plan))"
proof -
  have a: "sum_list (map (in_flight_of \<circ> (\<lambda>i. AwaitingCompress i (filesToCompress plan ! i))) [0..<m])
      = mset (take m (filesToCompress plan))" if "m \<le> length (filesToCompress plan)" for m
    using that by (induction m) (simp_all add: take_Suc_conv_app_nth)
  have b: "sum_list (replicate n ({#} :: string multiset)) = {#}" for n
    by (induction n) simp_all
  show ?thesis
    by (simp add: awaiting_paths_def spawned_def a b take_min_length)
qed

lemma filter_neq_subset:
  assumes "M \<subseteq># A" "p \<in># A"
  shows "filter_mset (\<lambda>q. q \<noteq> p) M \<subseteq># A - {#p#}"
proof (rule mset_subset_eqI)
  fix x
  show "count (filter_mset (\<lambda>q. q \<noteq> p) M) x \<le> count (A - {#p#}) x"
    using mset_subset_eq_count[OF assms(1), of x] by (cases "x = p") simp_all
qed

lemma count_inv_resume:
  assumes inv: "count_inv plan s" and step: "resume api plan w s = Some s'"
  shows "count_inv plan s'"
  using step
proof (cases rule: resume_cases)
  case (settle i p)
  note r = resume_settle[OF step settle]
  have upd: "awaiting_paths (pool s') + {#p#} = awaiting_paths (pool s)"
    using awaiting_update[OF r(1), of AwaitingTimer] settle by (simp add: r)
  have pin: "p \<in># awaiting_paths (pool s)" unfolding upd[symmetric] by simp
  have aw: "awaiting_paths (pool s') = awaiting_paths (pool s) - {#p#}"
    unfolding upd[symmetric] by simp
  have a: "\<forall>w'<length (pool s'). \<forall>i' p'. pool s' ! w' = AwaitingCompress i' p' \<longrightarrow>
        i' < fileIndex s' \<and> p' = filesToCompress plan ! i'"
  proof (intro allI impI)
    fix w' i' p'
    assume w': "w' < length (pool s')" and h: "pool s' ! w' = AwaitingCompress i' p'"
    then have "w' \<noteq> w" using r(1) by (auto simp add: r)
    then have "pool s ! w' = AwaitingCompress i' p'" "w' < length (pool s)"
      using h w' by (simp_all add: r)
    then show "i' < fileIndex s' \<and> p' = filesToCompress plan ! i'"
      using inv unfolding count_inv_def r(2) by blast
  qed
  have b: "mset (currentlyProcessing s') \<subseteq># awaiting_paths (pool s')"
    unfolding aw r(3) mset_filter
    using inv pin by (intro filter_neq_subset) (simp_all add: count_inv_def)
  have "size (awaiting_paths (pool s')) + 1 = size (awaiting_paths (pool s))"
    using arg_cong[OF upd, of size] by simp
  then have c: "size (awaiting_paths (pool s')) + processedCount s' = fileIndex s'"
    using inv by (simp add: count_inv_def r)
  show ?thesis unfolding count_inv_def using a b c by blast
next
  case claim
  note r = resume_claim[OF step claim]
  let ?q = "filesToCompress plan ! fileIndex s"
  have aw: "awaiting_paths (pool s') = awaiting_paths (pool s) + {#?q#}"
    using awaiting_update[OF r(1), of "AwaitingCompress (fileIndex s) ?q"] claim(1)
    by (simp add: r)
  have a: "\<forall>w'<length (pool s'). \<forall>i' p'. pool s' ! w' = AwaitingCompress i' p' \<longrightarrow>
        i' < fileIndex s' \<and> p' = filesToCompress plan ! i'"
  proof (intro allI impI)
    fix w' i' p'
    assume w': "w' < length (pool s')" and h: "pool s' ! w' = AwaitingCompress i' p'"
    show "i' < fileIndex s' \<and> p' = filesToCompress plan ! i'"
    proof (cases "w' = w")
      case True
      then show ?thesis using h r(1) by (auto simp add: r)
    next
      case False
      then have "pool s ! w' = AwaitingCompress i' p'" "w' < length (pool s)"
        using h w' by (simp_all add: r)
      then have "i' < fileIndex s \<and> p' = filesToCompress plan ! i'"
        using inv unfolding count_inv_def by blast
      then show ?thesis by (simp add: r)
    qed
  qed
  have b: "mset (currentlyProcessing s') \<subseteq># awaiting_paths (pool s')"
    using inv by (simp add: aw r(3) count_inv_def)
  have "size (awaiting_paths (pool s')) = size (awaiting_paths (pool s)) + 1"
    by (simp add: aw)
  then have c: "size (awaiting_paths (pool s')) + processedCount s' = fileIndex s'"
    using inv by (simp add: count_inv_def r(2) r(5))
  show ?thesis unfolding count_inv_def using a b c by blast
next
  case return
  note r = resume_return[OF step return]
  have aw: "awaiting_paths (pool s') = awaiting_paths (pool s)"
    using awaiting_update[OF r(1), of Returned] return(1) by (simp add: r)
  have a: "\<forall>w'<length (pool s'). \<forall>i' p'. pool s' ! w' = AwaitingCompress i' p' \<longrightarrow>
        i' < fileIndex s' \<and> p' = filesToCompress plan ! i'"
  proof (intro allI impI)
    fix w' i' p'
    assume w': "w' < length (pool s')" and h: "pool s' ! w' = AwaitingCompress i' p'"
    then have "w' \<noteq> w" using r(1) by (auto simp add: r)
    then have "pool s ! w' = AwaitingCompress i' p'" "w' < length (pool s)"
      using h w' by (simp_all add: r)
    then show "i' < fileIndex s' \<and> p' = filesToCompress plan ! i'"
      using inv unfolding count_inv_def r(2) by blast
  qed
  have b: "mset (currentlyProcessing s') \<subseteq># awaiting_paths (pool s')"
    unfolding aw using inv by (simp add: count_inv_def r(3))
  have c: "size (awaiting_paths (pool s')) + processedCount s' = fileIndex s'"
    unfolding aw using inv by (simp add: count_inv_def r(2) r(5))
  show ?thesis unfolding count_inv_def using a b c by blast
qed

lemma count_inv_spawn_all: "count_inv plan (spawn_all plan)"
proof -
  let ?s = "spawned plan (poolSize plan)"
  have a: "\<forall>w<length (pool ?s). \<forall>i p. pool ?s ! w = AwaitingCompress i p \<longrightarrow>
        i < fileIndex ?s \<and> p = filesToCompress plan ! i"
  proof (intro allI impI)
    fix w i p assume w: "w < length (pool ?s)" and h: "pool ?s ! w = AwaitingCompress i p"
    then show "i < fileIndex ?s \<and> p = filesToCompress plan ! i"
      using spawned_pool_nth[OF w] by (auto simp add: spawned_def split: if_splits)
  qed
  have b: "mset (currentlyProcessing ?s) \<subseteq># awaiting_paths (pool ?s)"
    by (simp add: awaiting_spawned) (simp add: spawned_def)
  have c: "size (awaiting_paths (pool ?s)) + processedCount ?s = fileIndex ?s"
    by (simp add: awaiting_spawned) (simp add: spawned_def min.commute)
  show ?thesis unfolding spawn_all_eq count_inv_def using a b c by blast
qed

lemma count_inv_run:
  assumes "run_schedule api plan sched (spawn_all plan) = Some s"
  shows "count_inv plan s"
  using assms count_inv_spawn_all count_inv_resume
  by (rule run_schedule_induct)

lemma tally_inv_run:
  assumes one: "one_result_per_call api plan"
    and run: "run_schedule api plan sched (spawn_all plan) = Some s"
  shows "tally_inv s"
proof -
  let ?Q = "\<lambda>t. cursor_inv plan t \<and> count_inv plan t \<and> tally_inv t"
  have "?Q s" using run
  proof (rule run_schedule_induct)
    show "?Q (spawn_all plan)"
      using cursor_inv_spawn_all count_inv_spawn_all
      by (simp add: tally_inv_def spawn_all_eq spawned_def)
  next
    fix w t t' assume q: "?Q t" and st: "resume api plan w t = Some t'"
    have "tally_inv t'" using st
    proof (cases rule: resume_cases)
      case (settle i p)
      note r = resume_settle[OF st settle]
      have "i < fileIndex t" "p = filesToCompress plan ! i"
        using q settle r(1) unfolding count_inv_def by blast+
      then have "p \<in> set (filesToCompress plan)" using q by (simp add: cursor_inv_def)
      then have "length (map path (settled_results api plan p)) = length [p]"
        using settled_results_path[OF one] by simp
      then have "length (settled_results api plan p) = 1" by simp
      then show ?thesis using q by (simp add: tally_inv_def r settled_results_def)
    next
      case claim
      then show ?thesis using q resume_claim[OF st claim] by (simp add: tally_inv_def)
    next
      case return
      then show ?thesis using q resume_return[OF st return] by (simp add: tally_inv_def)
    qed
    then show "?Q t'"
      using q cursor_inv_resume[OF _ st] count_inv_resume[OF _ st] by blast
  qed
  then show ?thesis by blast
qed

lemma complete_counts:
  assumes p: "1 \<le> poolSize plan"
    and run: "run_schedule api plan sched (spawn_all plan) = Some s"
    and rc: "run_complete s"
  shows "fileIndex s = length (filesToCompress plan)" and "currentlyProcessing s = []"
    and "processedCount s = length (filesToCompress plan)"
proof -
  have c: "cursor_inv plan s" using run by (rule cursor_inv_run)
  have k: "count_inv plan s" using run by (rule count_inv_run)
  have all: "\<forall>ws \<in> set (pool s). ws = Returned" using rc by (simp add: run_complete_def list_all_iff)
  have "pool s \<noteq> []" using c p by (auto simp add: cursor_inv_def)
  then have "Returned \<in> set (pool s)" using all by (cases "pool s") auto
  then show fi: "fileIndex s = length (filesToCompress plan)" using c by (simp add: cursor_inv_def)
  have e: "awaiting_paths (pool s) = {#}" using all by (rule awaiting_none)
  then show "currentlyProcessing s = []" using k by (simp add: count_inv_def)
  show "processedCount s = length (filesToCompress plan)"
    using k e fi by (simp add: count_inv_def)
qed

lemma results_paths_mset:
  assumes d: "distinct (filesToCompress plan)" and p: "1 \<le> poolSize plan"
    and one: "one_result_per_call api plan"
    and run: "run_schedule api plan sched (spawn_all plan) = Some s"
    and rc: "run_complete s"
  shows "mset (map path (compressionResults s)) = mset (filesToCompress plan)"
  using results_inv_run[OF d one run] complete_counts[OF p run rc]
  by (simp add: results_inv_def)

lemma fileIndex_mono_run:
  assumes "run_schedule api plan sched t = Some s"
  shows "fileIndex t \<le> fileIndex s"
  using assms
proof (rule run_schedule_induct)
  show "fileIndex t \<le> fileIndex t" by simp
next
  fix w u u' assume le: "fileIndex t \<le> fileIndex u" and st: "resume api plan w u = Some u'"
  from st show "fileIndex t \<le> fileIndex u'"
  proof (cases rule: resume_cases)
    case (settle i p)
    then show ?thesis using le resume_settle(2)[OF st settle] by simp
  next
    case claim
    then show ?thesis using le resume_claim(2)[OF st claim] by simp
  next
    case return
    then show ?thesis using le resume_return(2)[OF st return] by simp
  qed
qed

lemma claimLog_prefix_run:
  assumes "run_schedule api plan sched t = Some s"
  shows "\<exists>more. claimLog s = claimLog t @ more"
  using assms
proof (rule run_schedule_induct)
  show "\<exists>more. claimLog t = claimLog t @ more" by simp
next
  fix w u u' assume le: "\<exists>more. claimLog u = claimLog t @ more" and st: "resume api plan w u = Some u'"
  from st show "\<exists>more. claimLog u' = claimLog t @ more"
  proof (cases rule: resume_cases)
    case (settle i p)
    then show ?thesis using le resume_settle(7)[OF st settle] by simp
  next
    case claim
    then show ?thesis using le resume_claim(7)[OF st claim] by auto
  next
    case return
    then show ?thesis using le resume_return(7)[OF st return] by simp
  qed
qed

lemma count_in_upt:
  assumes "map snd xs = [0..<n]" "i < n"
  shows "length (filter (\<lambda>c. snd c = i) xs) = 1"
proof -
  have "length (filter (\<lambda>c. snd c = i) xs) = length (filter (\<lambda>j. j = i) (map snd xs))"
    by (simp add: filter_map comp_def)
  also have "\<dots> = card ({j. j = i} \<inter> set [0..<n])"
    unfolding assms(1) by (rule distinct_length_filter) simp
  also have "{j. j = i} \<inter> set [0..<n] = {i}" using assms(2) by auto
  finally show ?thesis by simp
qed

subsection \<open>Completeness of the results\<close>

text \<open>
  C1, as stated: the results depend on what the backend returns.  The worker appends the
  whole array a call resolves to, so a backend that resolves to an empty array leaves a
  completed run of one file with no result at all.
\<close>

theorem results_depend_on_backend_reply:
  "run_schedule empty_reply_api single_plan [0, 0] (spawn_all single_plan) \<noteq> None
   \<and> run_complete (the (run_schedule empty_reply_api single_plan [0, 0] (spawn_all single_plan)))
   \<and> compressionResults (the (run_schedule empty_reply_api single_plan [0, 0] (spawn_all single_plan))) = []
   \<and> length (filesToCompress single_plan) = 1"
  by code_simp

text \<open>
  C1, amended: for every plan with \<open>N\<close> distinct paths and a pool size of at least one, for
  every interleaving, and for every backend whose calls reject or resolve to exactly one
  result that carries the requested path, a completed run has exactly \<open>N\<close> results and
  their paths are the planned paths, none left out and none twice.
\<close>

theorem results_complete:
  assumes d: "distinct (filesToCompress plan)" and p: "1 \<le> poolSize plan"
    and one: "one_result_per_call api plan"
    and run: "run_schedule api plan sched (spawn_all plan) = Some s"
    and rc: "run_complete s"
  shows "length (compressionResults s) = length (filesToCompress plan)
       \<and> set (map path (compressionResults s)) = set (filesToCompress plan)
       \<and> distinct (map path (compressionResults s))"
proof -
  have m: "mset (map path (compressionResults s)) = mset (filesToCompress plan)"
    using assms by (rule results_paths_mset)
  have "length (map path (compressionResults s)) = length (filesToCompress plan)"
    using m by (rule mset_eq_length)
  moreover have "set (map path (compressionResults s)) = set (filesToCompress plan)"
    using m by (rule mset_eq_setD)
  moreover have "distinct (map path (compressionResults s))"
    using m d by (metis mset_eq_imp_distinct_iff)
  ultimately show ?thesis by simp
qed

theorem results_complete_witness:
  "distinct (filesToCompress example_plan) \<and> 1 \<le> poolSize example_plan
   \<and> one_result_per_call mock_compressFilesInPlace example_plan
   \<and> run_schedule mock_compressFilesInPlace example_plan example_schedule (spawn_all example_plan) \<noteq> None
   \<and> run_complete (the (run_schedule mock_compressFilesInPlace example_plan example_schedule (spawn_all example_plan)))
   \<and> length (compressionResults (the (run_schedule mock_compressFilesInPlace example_plan example_schedule (spawn_all example_plan)))) = 3
   \<and> map path (compressionResults (the (run_schedule mock_compressFilesInPlace example_plan example_schedule (spawn_all example_plan))))
       = [''/p/b.png'', ''/p/a.png'', ''/p/c.zip'']"
proof -
  let ?r = "run_schedule mock_compressFilesInPlace example_plan example_schedule (spawn_all example_plan)"
  have h1: "distinct (filesToCompress example_plan)" by code_simp
  have h2: "1 \<le> poolSize example_plan" by code_simp
  have h3: "one_result_per_call mock_compressFilesInPlace example_plan" by code_simp
  have h4: "?r \<noteq> None" by code_simp
  then have h4': "?r = Some (the ?r)" by simp
  have h5: "run_complete (the ?r)" by code_simp
  have h6: "map path (compressionResults (the ?r)) = [''/p/b.png'', ''/p/a.png'', ''/p/c.zip'']"
    by code_simp
  have "length (compressionResults (the ?r)) = length (filesToCompress example_plan)"
    using results_complete [OF h1 h2 h3 h4' h5] by blast
  moreover have "length (filesToCompress example_plan) = 3" by code_simp
  ultimately show ?thesis using h1 h2 h3 h4 h5 h6 by simp
qed

subsection \<open>Claiming\<close>

text \<open>
  C2.  In every interleaving the cursor never decreases and never passes the plan's
  length, the indices are handed out in the order \<open>0, 1, 2, \<dots>\<close> (so none twice), each to a
  worker of the pool, and after a completed run of a pool with at least one worker every
  index below \<open>N\<close> has been claimed exactly once.
\<close>

theorem every_index_claimed_once:
  assumes first: "run_schedule api plan sched1 (spawn_all plan) = Some t"
    and rest: "run_schedule api plan sched2 t = Some s"
  shows "fileIndex t \<le> fileIndex s
       \<and> fileIndex s \<le> length (filesToCompress plan)
       \<and> map snd (claimLog s) = [0..<fileIndex s]
       \<and> (\<forall>c \<in> set (claimLog s). fst c < poolSize plan)
       \<and> (\<exists>more. claimLog s = claimLog t @ more)
       \<and> (1 \<le> poolSize plan \<and> run_complete s \<longrightarrow>
            fileIndex s = length (filesToCompress plan)
            \<and> (\<forall>i < length (filesToCompress plan).
                  length (filter (\<lambda>c. snd c = i) (claimLog s)) = 1))"
proof -
  have ct: "cursor_inv plan t" using first by (rule cursor_inv_run)
  have c: "cursor_inv plan s" using remaining_work_run[OF rest ct] by blast
  have fin: "fileIndex s = length (filesToCompress plan)"
    if "1 \<le> poolSize plan" "run_complete s"
  proof -
    have all: "\<forall>ws \<in> set (pool s). ws = Returned"
      using that(2) by (simp add: run_complete_def list_all_iff)
    have "pool s \<noteq> []" using c that(1) by (auto simp add: cursor_inv_def)
    then have "Returned \<in> set (pool s)" using all by (cases "pool s") auto
    then show ?thesis using c by (simp add: cursor_inv_def)
  qed
  have once: "\<forall>i < length (filesToCompress plan). length (filter (\<lambda>c. snd c = i) (claimLog s)) = 1"
    if "1 \<le> poolSize plan" "run_complete s"
    using count_in_upt[of "claimLog s" "fileIndex s"] c fin[OF that]
    by (simp add: cursor_inv_def)
  show ?thesis
    using fileIndex_mono_run[OF rest] claimLog_prefix_run[OF rest] c fin once
    by (simp add: cursor_inv_def)
qed

theorem every_index_claimed_once_witness:
  "run_schedule mock_compressFilesInPlace example_plan [1, 0, 1] (spawn_all example_plan) \<noteq> None
   \<and> run_schedule mock_compressFilesInPlace example_plan [0, 1, 1]
        (the (run_schedule mock_compressFilesInPlace example_plan [1, 0, 1] (spawn_all example_plan))) \<noteq> None
   \<and> 1 \<le> poolSize example_plan
   \<and> run_complete (the (run_schedule mock_compressFilesInPlace example_plan [0, 1, 1]
        (the (run_schedule mock_compressFilesInPlace example_plan [1, 0, 1] (spawn_all example_plan)))))
   \<and> claimLog (the (run_schedule mock_compressFilesInPlace example_plan [0, 1, 1]
        (the (run_schedule mock_compressFilesInPlace example_plan [1, 0, 1] (spawn_all example_plan)))))
      = [(0, 0), (1, 1), (1, 2)]
   \<and> fileIndex (the (run_schedule mock_compressFilesInPlace example_plan [0, 1, 1]
        (the (run_schedule mock_compressFilesInPlace example_plan [1, 0, 1] (spawn_all example_plan)))))
      = length (filesToCompress example_plan)"
proof -
  let ?t = "run_schedule mock_compressFilesInPlace example_plan [1, 0, 1] (spawn_all example_plan)"
  let ?s = "run_schedule mock_compressFilesInPlace example_plan [0, 1, 1] (the ?t)"
  have h1: "?t \<noteq> None" by code_simp
  then have h1': "?t = Some (the ?t)" by simp
  have h2: "?s \<noteq> None" by code_simp
  then have h2': "?s = Some (the ?s)" by simp
  have h3: "1 \<le> poolSize example_plan" by code_simp
  have h4: "run_complete (the ?s)" by code_simp
  have h5: "claimLog (the ?s) = [(0, 0), (1, 1), (1, 2)]" by code_simp
  have "fileIndex (the ?s) = length (filesToCompress example_plan)"
    using every_index_claimed_once [OF h1' h2'] h3 h4 by blast
  then show ?thesis using h1 h2 h3 h4 h5 by simp
qed

subsection \<open>The concurrency bound\<close>

text \<open>
  C3.  In every state of a run, during the spawning loop and after any number of
  resumptions in any order, the in-flight list has at most \<open>min P N\<close> entries, whatever
  the calls return.
\<close>

theorem in_flight_bounded:
  assumes "run_schedule api plan sched (spawn_all plan) = Some s"
  shows "length (currentlyProcessing s) \<le> min (poolSize plan) (length (filesToCompress plan))
       \<and> (\<forall>k \<le> poolSize plan.
            length (currentlyProcessing (((spawn_worker plan) ^^ k) initial_pool_state))
              \<le> min (poolSize plan) (length (filesToCompress plan)))"
proof -
  have c: "cursor_inv plan s" using assms by (rule cursor_inv_run)
  have k: "count_inv plan s" using assms by (rule count_inv_run)
  have "size (mset (currentlyProcessing s)) \<le> size (awaiting_paths (pool s))"
    using k by (intro size_mset_mono) (simp add: count_inv_def)
  then have le: "length (currentlyProcessing s) \<le> size (awaiting_paths (pool s))" by simp
  have "size (awaiting_paths (pool s)) \<le> poolSize plan"
    using awaiting_size[of "pool s"] c by (simp add: cursor_inv_def)
  moreover have "size (awaiting_paths (pool s)) \<le> length (filesToCompress plan)"
    using k c by (simp add: count_inv_def cursor_inv_def)
  moreover have "\<forall>k \<le> poolSize plan.
      length (currentlyProcessing (((spawn_worker plan) ^^ k) initial_pool_state))
        \<le> min (poolSize plan) (length (filesToCompress plan))"
    by (auto simp add: spawn_funpow spawned_def)
  ultimately show ?thesis using le by simp
qed

theorem in_flight_bounded_witness:
  "run_schedule mock_compressFilesInPlace example_plan [1, 1] (spawn_all example_plan) \<noteq> None
   \<and> currentlyProcessing (the (run_schedule mock_compressFilesInPlace example_plan [1, 1]
         (spawn_all example_plan))) = [''/p/a.png'', ''/p/c.zip'']
   \<and> length (currentlyProcessing (the (run_schedule mock_compressFilesInPlace example_plan [1, 1]
         (spawn_all example_plan))))
       \<le> min (poolSize example_plan) (length (filesToCompress example_plan))"
proof -
  let ?r = "run_schedule mock_compressFilesInPlace example_plan [1, 1] (spawn_all example_plan)"
  have h2: "?r \<noteq> None" by code_simp
  then have h2': "?r = Some (the ?r)" by simp
  have h3: "currentlyProcessing (the ?r) = [''/p/a.png'', ''/p/c.zip'']" by code_simp
  show ?thesis using in_flight_bounded [OF h2'] h2 h3 by blast
qed

subsection \<open>Failure isolation\<close>

text \<open>
  C4, as stated: a failed item does not always carry a non-empty error string.  The
  \<open>catch\<close> block copies the message of a thrown \<open>Error\<close>, and that message can be empty.
\<close>

theorem failure_with_empty_message:
  "run_schedule empty_message_api single_plan [0, 0] (spawn_all single_plan) \<noteq> None
   \<and> run_complete (the (run_schedule empty_message_api single_plan [0, 0] (spawn_all single_plan)))
   \<and> map success (compressionResults
         (the (run_schedule empty_message_api single_plan [0, 0] (spawn_all single_plan)))) = [False]
   \<and> map error (compressionResults
         (the (run_schedule empty_message_api single_plan [0, 0] (spawn_all single_plan)))) = [Some []]"
  by code_simp

text \<open>
  C4, amended: let the calls reject for any subset of the planned paths (all of them
  included) and resolve to one result for the path asked otherwise.  Then every
  interleaving has at most \<open>2 N\<close> resumptions, a worker can be resumed as long as the run is
  not complete, and the run is complete exactly after \<open>2 N\<close> resumptions.  The completed
  run has \<open>N\<close> results and has claimed every index, and every rejected path is recorded
  with \<open>success\<close> false and as \<open>error\<close> the message of the thrown \<open>Error\<close>, or
  "Unknown error" when the rejection value is not an \<open>Error\<close>.
\<close>

theorem failure_isolation:
  assumes p: "1 \<le> poolSize plan"
    and one: "one_result_per_call api plan"
    and run: "run_schedule api plan sched (spawn_all plan) = Some s"
  shows "length sched \<le> 2 * length (filesToCompress plan)
       \<and> (run_complete s \<longleftrightarrow> length sched = 2 * length (filesToCompress plan))
       \<and> (\<not> run_complete s \<longrightarrow> (\<exists>w < poolSize plan. resume api plan w s \<noteq> None))
       \<and> (run_complete s \<longrightarrow>
            length (compressionResults s) = length (filesToCompress plan)
            \<and> fileIndex s = length (filesToCompress plan)
            \<and> (\<forall>q \<in> set (filesToCompress plan). \<forall>err.
                  api [q] (plugins plan) = Rejected err \<longrightarrow>
                    \<lparr> success = False, path = q, backup_path = None, res_original_size = None,
                      compressed_size = None, savings = None, plugin_name = None,
                      error = Some (case err of ErrorInstance m \<Rightarrow> m | OtherValue \<Rightarrow> ''Unknown error'') \<rparr>
                    \<in> set (compressionResults s)))"
proof -
  have work: "remaining_work plan s + length sched = 2 * length (filesToCompress plan)"
    and c: "cursor_inv plan s"
    using remaining_work_run[OF run cursor_inv_spawn_all] remaining_work_spawn_all by simp_all
  have iff: "run_complete s \<longleftrightarrow> remaining_work plan s = 0"
    using c p by (rule complete_iff_no_work)
  have a: "length sched \<le> 2 * length (filesToCompress plan)" using work by simp
  have b: "run_complete s \<longleftrightarrow> length sched = 2 * length (filesToCompress plan)"
    using work iff by auto
  have e: "\<exists>w < poolSize plan. resume api plan w s \<noteq> None" if "\<not> run_complete s"
    using not_complete_can_resume[OF that, of api plan] c by (auto simp add: cursor_inv_def)
  have f: "length (compressionResults s) = length (filesToCompress plan)" if "run_complete s"
    using tally_inv_run[OF one run] complete_counts(3)[OF p run that] by (simp add: tally_inv_def)
  have g: "fileIndex s = length (filesToCompress plan)" if "run_complete s"
    using complete_counts(1)[OF p run that] .
  have h: "failure_result q err \<in> set (compressionResults s)"
    if rc: "run_complete s" and q: "q \<in> set (filesToCompress plan)"
      and rej: "api [q] (plugins plan) = Rejected err" for q err
  proof -
    obtain i where i: "i < length (filesToCompress plan)" "q = filesToCompress plan ! i"
      using q by (auto simp add: in_set_conv_nth)
    have "set (settled_results api plan q) \<subseteq> set (compressionResults s)"
      using recorded_inv_run[OF run] i complete_counts(1,2)[OF p run rc]
      by (simp add: recorded_inv_def)
    then show ?thesis using rej by (simp add: settled_results_def)
  qed
  show ?thesis using a b e f g h
    by (simp add: failure_result_def error_message_def)
qed

theorem failure_isolation_witness:
  "1 \<le> poolSize example_plan
   \<and> one_result_per_call failing_api example_plan
   \<and> run_schedule failing_api example_plan example_schedule (spawn_all example_plan) \<noteq> None
   \<and> failing_api [''/p/b.png''] (plugins example_plan) = Rejected OtherValue
   \<and> length example_schedule = 2 * length (filesToCompress example_plan)
   \<and> run_complete (the (run_schedule failing_api example_plan example_schedule (spawn_all example_plan)))
   \<and> length (compressionResults (the (run_schedule failing_api example_plan example_schedule (spawn_all example_plan)))) = 3
   \<and> \<lparr> success = False, path = ''/p/b.png'', backup_path = None, res_original_size = None,
        compressed_size = None, savings = None, plugin_name = None,
        error = Some ''Unknown error'' \<rparr>
      \<in> set (compressionResults (the (run_schedule failing_api example_plan example_schedule (spawn_all example_plan))))"
proof -
  let ?r = "run_schedule failing_api example_plan example_schedule (spawn_all example_plan)"
  have h2: "1 \<le> poolSize example_plan" by code_simp
  have h3: "one_result_per_call failing_api example_plan" by code_simp
  have h4: "?r \<noteq> None" by code_simp
  then have h4': "?r = Some (the ?r)" by simp
  have h5: "failing_api [''/p/b.png''] (plugins example_plan) = Rejected OtherValue" by code_simp
  have h6: "length example_schedule = 2 * length (filesToCompress example_plan)" by code_simp
  have h7: "''/p/b.png'' \<in> set (filesToCompress example_plan)" by code_simp
  have h8: "length (filesToCompress example_plan) = 3" by code_simp
  note fi = failure_isolation [OF h2 h3 h4']
  have rc: "run_complete (the ?r)" using fi h6 by blast
  have len: "length (compressionResults (the ?r)) = 3" using fi rc h8 by simp
  have "\<lparr> success = False, path = ''/p/b.png'', backup_path = None, res_original_size = None,
        compressed_size = None, savings = None, plugin_name = None,
        error = Some (case OtherValue of ErrorInstance m \<Rightarrow> m | OtherValue \<Rightarrow> ''Unknown error'') \<rparr>
      \<in> set (compressionResults (the ?r))"
    using fi rc h7 h5 by blast
  then show ?thesis using h2 h3 h4 h5 h6 rc len by simp
qed

subsection \<open>Spawning\<close>

text \<open>
  C5, as stated: with five workers and three paths the pool holds five worker tasks, not
  three; the last two were started and have returned at once.
\<close>

theorem spawn_all_starts_idle_workers:
  "pool (spawn_all wide_plan) =
     [AwaitingCompress 0 ''/p/a.png'', AwaitingCompress 1 ''/p/b.png'',
      AwaitingCompress 2 ''/p/c.zip'', Returned, Returned]
   \<and> length (pool (spawn_all wide_plan)) = 5
   \<and> min (poolSize wide_plan) (length (filesToCompress wide_plan)) = 3"
  by code_simp

text \<open>
  C5, amended: \<open>handleCompress\<close> starts exactly \<open>poolSize\<close> worker tasks whatever the size
  of the plan.  The first \<open>min P N\<close> of them claim the indices \<open>0, \<dots>, min P N - 1\<close> in order
  and suspend on their compress call; the other \<open>P - N\<close> find nothing to claim and return
  at once.
\<close>

theorem spawn_all_pool:
  "pool (spawn_all plan) =
     map (\<lambda>i. AwaitingCompress i (filesToCompress plan ! i))
       [0..<min (poolSize plan) (length (filesToCompress plan))]
     @ replicate (poolSize plan - length (filesToCompress plan)) Returned
   \<and> length (pool (spawn_all plan)) = poolSize plan
   \<and> map snd (claimLog (spawn_all plan)) = [0..<min (poolSize plan) (length (filesToCompress plan))]"
  by (simp add: spawn_all_eq spawned_def comp_def map_idI)

subsection \<open>Suspension points\<close>

text \<open>
  C6, as stated: the compress call is not the only point where a worker suspends.  After
  the bookkeeping of an item the worker waits on a timer before it tests the loop
  condition again: with one file and one worker, the state after the call has settled
  shows the worker suspended with nothing in flight and the item counted.
\<close>

theorem worker_suspends_on_timer:
  "run_schedule mock_compressFilesInPlace single_plan [0] (spawn_all single_plan) \<noteq> None
   \<and> pool (the (run_schedule mock_compressFilesInPlace single_plan [0] (spawn_all single_plan)))
       = [AwaitingTimer]
   \<and> currentlyProcessing
        (the (run_schedule mock_compressFilesInPlace single_plan [0] (spawn_all single_plan))) = []
   \<and> processedCount
        (the (run_schedule mock_compressFilesInPlace single_plan [0] (spawn_all single_plan))) = 1"
  by code_simp

text \<open>
  C6, amended: an iteration of the worker loop suspends twice, at the compress call and at
  the timer that follows the bookkeeping.  Between the claim of an index and the end of
  that item's bookkeeping the call is the only suspension: a worker resumed from the call
  appends the outcome, takes its path out of flight and raises the count in one step, and
  then waits on the timer; a worker resumed from the timer claims the next index and puts
  its path in flight in one step, or returns.
\<close>

theorem worker_suspension_points:
  assumes "resume api plan w s = Some s'"
  shows "(\<forall>i p. pool s ! w = AwaitingCompress i p \<longrightarrow>
            pool s' ! w = AwaitingTimer
            \<and> p \<notin> set (currentlyProcessing s')
            \<and> processedCount s' = processedCount s + 1
            \<and> compressionResults s' = compressionResults s @
                 (case api [p] (plugins plan) of
                    Resolved rs \<Rightarrow> rs
                  | Rejected err \<Rightarrow> [failure_result p err]))
       \<and> (pool s ! w = AwaitingTimer \<longrightarrow>
            (if fileIndex s < length (filesToCompress plan)
             then pool s' ! w = AwaitingCompress (fileIndex s) (filesToCompress plan ! fileIndex s)
                  \<and> currentlyProcessing s' = currentlyProcessing s @ [filesToCompress plan ! fileIndex s]
                  \<and> fileIndex s' = fileIndex s + 1
             else pool s' ! w = Returned \<and> fileIndex s' = fileIndex s
                  \<and> currentlyProcessing s' = currentlyProcessing s)
            \<and> compressionResults s' = compressionResults s
            \<and> processedCount s' = processedCount s)
       \<and> pool s ! w \<noteq> Returned"
  using assms
proof (cases rule: resume_cases)
  case (settle i p)
  note r = resume_settle[OF assms settle]
  show ?thesis using settle r(1) by (simp add: r)
next
  case claim
  note r = resume_claim[OF assms claim]
  show ?thesis using claim r(1) by (simp add: r)
next
  case return
  note r = resume_return[OF assms return]
  show ?thesis using return r(1) by (simp add: r)
qed

theorem worker_suspension_points_witness:
  "resume mock_compressFilesInPlace single_plan 0 (spawn_all single_plan) \<noteq> None
   \<and> pool (spawn_all single_plan) ! 0 = AwaitingCompress 0 ''/p/a.png''
   \<and> pool (the (resume mock_compressFilesInPlace single_plan 0 (spawn_all single_plan))) ! 0
       = AwaitingTimer
   \<and> processedCount (the (resume mock_compressFilesInPlace single_plan 0 (spawn_all single_plan)))
       = processedCount (spawn_all single_plan) + 1"
proof -
  let ?r = "resume mock_compressFilesInPlace single_plan 0 (spawn_all single_plan)"
  have h1: "?r \<noteq> None" by code_simp
  then have h1': "?r = Some (the ?r)" by simp
  have h2: "pool (spawn_all single_plan) ! 0 = AwaitingCompress 0 ''/p/a.png''" by code_simp
  show ?thesis using worker_suspension_points [OF h1'] h1 h2 by simp
qed

end
